theory Spec2Isabelle
  imports Complex_Main
begin

section \<open>Numbers\<close>

text \<open>
  The program computes with JavaScript numbers. A value that the code itself can make or
  test as non-finite (an angle handed to \<open>update\<close>, the \<open>Infinity\<close> sentinels of the
  minimum searches, the result of \<open>parseFloat\<close>, \<open>NaN\<close> results of the geometry
  functions) is a \<open>jsnum\<close>. Finite quantities (timestamps in seconds, stored angles,
  slopes, durations) are \<open>real\<close>, and counts and window sizes are \<open>int\<close> or \<open>nat\<close>:
  arithmetic on them is exact, rounding of IEEE doubles within their range is not part
  of the model. The range itself is modelled where a result depends on it: \<open>angleAt\<close>
  divides by a product of two lengths, which can underflow to zero or overflow, so its
  arithmetic is written with the operations of the subsection below.
\<close>

datatype jsnum = Fin real | PosInf | NegInf | NaN

text \<open>\<open>Number.isFinite\<close>.\<close>

fun isFinite :: "jsnum \<Rightarrow> bool" where
  "isFinite (Fin r) = True"
| "isFinite PosInf = False"
| "isFinite NegInf = False"
| "isFinite NaN = False"

text \<open>The comparisons \<open><\<close> and \<open><=\<close> of JavaScript: false as soon as one side is \<open>NaN\<close>.\<close>

fun js_lt :: "jsnum \<Rightarrow> jsnum \<Rightarrow> bool" where
  "js_lt NaN y = False"
| "js_lt x NaN = False"
| "js_lt (Fin a) (Fin b) = (a < b)"
| "js_lt x NegInf = False"
| "js_lt PosInf y = False"
| "js_lt NegInf y = True"
| "js_lt x PosInf = True"

fun js_le :: "jsnum \<Rightarrow> jsnum \<Rightarrow> bool" where
  "js_le NaN y = False"
| "js_le x NaN = False"
| "js_le (Fin a) (Fin b) = (a \<le> b)"
| "js_le NegInf y = True"
| "js_le x PosInf = True"
| "js_le x NegInf = False"
| "js_le PosInf y = False"

subsection \<open>The range of the doubles\<close>

text \<open>
  Round to nearest: a real at or beyond \<open>2^1024 - 2^970\<close>, half a step above the largest
  double, becomes an infinity; a real of magnitude at most \<open>2^-1075\<close>, half the smallest
  subnormal, becomes zero. A sum or difference of doubles and \<open>Math.hypot\<close> of doubles
  cannot underflow to zero, so they are rounded with \<open>fl_ovf\<close>; products and quotients can,
  and are rounded with \<open>fl\<close>. The sign of a zero is not modelled: a zero divisor counts as
  \<open>+0\<close>, which is what a product of two lengths is.
\<close>

definition double_overflow :: real where
  "double_overflow = 2 ^ 1024 - 2 ^ 970"

definition double_underflow :: real where
  "double_underflow = 1 / 2 ^ 1075"

definition fl_ovf :: "real \<Rightarrow> jsnum" where
  "fl_ovf r =
     (if double_overflow \<le> r then PosInf
      else if r \<le> - double_overflow then NegInf
      else Fin r)"

definition fl :: "real \<Rightarrow> jsnum" where
  "fl r = (if \<bar>r\<bar> \<le> double_underflow then Fin 0 else fl_ovf r)"

text \<open>The infinity of a given sign; \<open>NaN\<close> when the sign is zero, as in \<open>0 * Infinity\<close>
  and \<open>0 / 0\<close>.\<close>

definition inf_of_sign :: "real \<Rightarrow> jsnum" where
  "inf_of_sign s = (if 0 < s then PosInf else if s < 0 then NegInf else NaN)"

fun sign_of :: "jsnum \<Rightarrow> real" where
  "sign_of (Fin r) = sgn r"
| "sign_of PosInf = 1"
| "sign_of NegInf = - 1"
| "sign_of NaN = 0"

text \<open>The operators \<open>+\<close>, \<open>*\<close> and \<open>/\<close>.\<close>

fun js_add :: "jsnum \<Rightarrow> jsnum \<Rightarrow> jsnum" where
  "js_add NaN y = NaN"
| "js_add x NaN = NaN"
| "js_add (Fin a) (Fin b) = fl_ovf (a + b)"
| "js_add PosInf NegInf = NaN"
| "js_add NegInf PosInf = NaN"
| "js_add (Fin a) y = y"
| "js_add x y = x"

fun js_mul :: "jsnum \<Rightarrow> jsnum \<Rightarrow> jsnum" where
  "js_mul NaN y = NaN"
| "js_mul x NaN = NaN"
| "js_mul (Fin a) (Fin b) = fl (a * b)"
| "js_mul x y = inf_of_sign (sign_of x * sign_of y)"

fun js_div :: "jsnum \<Rightarrow> jsnum \<Rightarrow> jsnum" where
  "js_div NaN y = NaN"
| "js_div x NaN = NaN"
| "js_div (Fin a) (Fin b) = (if b = 0 then inf_of_sign a else fl (a / b))"
| "js_div (Fin a) y = Fin 0"
| "js_div x (Fin b) = inf_of_sign (sign_of x * (if b < 0 then - 1 else 1))"
| "js_div x y = NaN"

text \<open>\<open>Math.min\<close> and \<open>Math.max\<close> of two arguments: \<open>NaN\<close> when either is.\<close>

definition js_min :: "jsnum \<Rightarrow> jsnum \<Rightarrow> jsnum" where
  "js_min x y = (if x = NaN \<or> y = NaN then NaN else if js_lt y x then y else x)"

definition js_max :: "jsnum \<Rightarrow> jsnum \<Rightarrow> jsnum" where
  "js_max x y = (if x = NaN \<or> y = NaN then NaN else if js_lt x y then y else x)"

text \<open>\<open>Math.acos\<close>: \<open>NaN\<close> outside \<open>[-1, 1]\<close>.\<close>

fun js_acos :: "jsnum \<Rightarrow> jsnum" where
  "js_acos (Fin r) = (if - 1 \<le> r \<and> r \<le> 1 then Fin (arccos r) else NaN)"
| "js_acos x = NaN"

section \<open>Geometry\<close>

text \<open>A landmark \<open>{x, y}\<close> with finite coordinates.\<close>

record point =
  px :: real
  py :: real

text \<open>The length \<open>sqrt(u^2 + v^2)\<close> that \<open>Math.hypot\<close> of two finite arguments computes.\<close>

definition hypot :: "real \<Rightarrow> real \<Rightarrow> real" where
  "hypot u v = sqrt (u * u + v * v)"



text \<open>\<open>Math.hypot\<close> on numbers: an infinite argument gives \<open>Infinity\<close>, before a \<open>NaN\<close>
  argument gives \<open>NaN\<close>.\<close>

fun js_hypot :: "jsnum \<Rightarrow> jsnum \<Rightarrow> jsnum" where
  "js_hypot (Fin a) (Fin b) = fl_ovf (hypot a b)"
| "js_hypot PosInf y = PosInf"
| "js_hypot NegInf y = PosInf"
| "js_hypot x PosInf = PosInf"
| "js_hypot x NegInf = PosInf"
| "js_hypot x y = NaN"

text \<open>
  \<open>angleAt\<close>, with the range of the doubles. The last line scales an inverse cosine, which
  is zero or more than \<open>1e-8\<close> and at most \<open>pi\<close> on doubles, so that product and quotient
  stay in range.
\<close>

definition angleAt :: "point \<Rightarrow> point \<Rightarrow> point \<Rightarrow> jsnum" where
  "angleAt a b c =
     (let bax = fl_ovf (px a - px b);
          bay = fl_ovf (py a - py b);
          bcx = fl_ovf (px c - px b);
          bcy = fl_ovf (py c - py b);
          dot = js_add (js_mul bax bcx) (js_mul bay bcy);
          magBA = js_hypot bax bay;
          magBC = js_hypot bcx bcy
      in if magBA = Fin 0 \<or> magBC = Fin 0 then NaN
         else
           (let cosang = js_max (Fin (- 1)) (js_min (Fin 1) (js_div dot (js_mul magBA magBC)))
            in case js_acos cosang of
                 Fin th \<Rightarrow> Fin (th * 180 / pi)
               | _ \<Rightarrow> NaN))"

text \<open>
  The calls of \<open>angleAt\<close> in which no intermediate result leaves the range: no difference,
  sum or length overflows, and neither product nor the quotient overflows or
  underflows.
\<close>

definition in_double_range :: "real \<Rightarrow> bool" where
  "in_double_range r \<longleftrightarrow> (r = 0 \<or> double_underflow < \<bar>r\<bar>) \<and> \<bar>r\<bar> < double_overflow"

definition angleAt_in_range :: "point \<Rightarrow> point \<Rightarrow> point \<Rightarrow> bool" where
  "angleAt_in_range a b c \<longleftrightarrow>
     (let bax = px a - px b;
          bay = py a - py b;
          bcx = px c - px b;
          bcy = py c - py b;
          dot = bax * bcx + bay * bcy;
          magBA = hypot bax bay;
          magBC = hypot bcx bcy
      in \<bar>bax\<bar> < double_overflow \<and> \<bar>bay\<bar> < double_overflow
         \<and> \<bar>bcx\<bar> < double_overflow \<and> \<bar>bcy\<bar> < double_overflow
         \<and> in_double_range (bax * bcx) \<and> in_double_range (bay * bcy)
         \<and> \<bar>dot\<bar> < double_overflow
         \<and> magBA < double_overflow \<and> magBC < double_overflow
         \<and> in_double_range (magBA * magBC)
         \<and> in_double_range (dot / (magBA * magBC)))"


section \<open>The stroke detector: \<open>StrokeState\<close>\<close>

text \<open>
  The class of \<open>docs/lib/kinematics.mjs\<close>, in its later revision: the one with
  \<open>minCatchIntervalSec\<close>, \<open>confirmFrames\<close>, \<open>windowSize\<close> and the fallback rule. The
  fields are in the order the constructor assigns them. A history entry \<open>{t, a}\<close> or
  \<open>{t, d}\<close> is a pair, the timestamp first.
\<close>

record state =
  catchAngleMax :: jsnum
  smooth :: int
  minCatchIntervalSec :: real
  confirmFrames :: int
  windowSize :: int
  angles :: "(real \<times> real) list"
  deriv :: "(real \<times> real) list"
  catches :: "real list"
  finishes :: "real list"
  posStreak :: nat

text \<open>
  The options object of the constructor. A property that is absent (or \<open>undefined\<close>) is
  \<open>None\<close> and takes the default of the destructuring pattern.
\<close>

record config =
  cfg_catchAngleMax :: "jsnum option"
  cfg_smooth :: "int option"
  cfg_minCatchIntervalSec :: "real option"
  cfg_confirmFrames :: "int option"
  cfg_windowSize :: "int option"

definition dflt :: "'a \<Rightarrow> 'a option \<Rightarrow> 'a" where
  "dflt d v = (case v of None \<Rightarrow> d | Some x \<Rightarrow> x)"

definition StrokeState :: "config \<Rightarrow> state" where
  "StrokeState c =
     \<lparr> catchAngleMax = dflt (Fin 110) (cfg_catchAngleMax c),
       smooth = max 1 (dflt 5 (cfg_smooth c)),
       minCatchIntervalSec = dflt (9 / 10) (cfg_minCatchIntervalSec c),
       confirmFrames = max 1 (dflt 2 (cfg_confirmFrames c)),
       windowSize = max 3 (dflt 9 (cfg_windowSize c)),
       angles = [],
       deriv = [],
       catches = [],
       finishes = [],
       posStreak = 0 \<rparr>"

text \<open>\<open>new StrokeState()\<close>: every option absent.\<close>

definition no_options :: config where
  "no_options =
     \<lparr> cfg_catchAngleMax = None, cfg_smooth = None, cfg_minCatchIntervalSec = None,
       cfg_confirmFrames = None, cfg_windowSize = None \<rparr>"

subsection \<open>\<open>smoothedAngle\<close>\<close>

text \<open>
  \<open>null\<close> is \<open>None\<close>. The loop runs over the indices
  \<open>length - smooth, \<dots>, length - 1\<close>, all of them in range when it is reached with
  \<open>0 < smooth\<close>. With \<open>smooth = 0\<close> the loop is empty and the quotient is \<open>0 / 0\<close>,
  which is \<open>NaN\<close>; with a negative \<open>smooth\<close> the loop is empty too and the quotient is a
  zero.
\<close>

definition smoothedAngle :: "state \<Rightarrow> jsnum option" where
  "smoothedAngle st =
     (let n = length (angles st) in
      if int n < smooth st then None
      else
        (let s = fold (\<lambda>i s. s + snd (angles st ! i)) [nat (int n - smooth st) ..< n] 0
         in if smooth st = 0 then Some NaN else Some (Fin (s / real_of_int (smooth st)))))"

subsection \<open>\<open>_isLocalMin\<close>\<close>

text \<open>
  The search keeps the running minimum \<open>minA\<close>, which starts at \<open>Infinity\<close>, and its index
  \<open>minIdx\<close>, which starts at \<open>-1\<close>; a later sample replaces the minimum only when it is
  strictly smaller.
\<close>

definition isLocalMin_body :: "state \<Rightarrow> nat \<Rightarrow> jsnum \<times> int \<Rightarrow> jsnum \<times> int" where
  "isLocalMin_body st i acc =
     (let a = snd (angles st ! i) in
      if js_lt (Fin a) (fst acc) then (Fin a, int i) else acc)"

definition isLocalMin :: "state \<Rightarrow> bool" where
  "isLocalMin st =
     (let n = int (length (angles st)) in
      if n < windowSize st then False
      else
        (let end = n - 1;
             start = max 0 (end - windowSize st + 1);
             r = fold (isLocalMin_body st) [nat start ..< nat (end + 1)] (PosInf, - 1)
         in snd r = end))"

subsection \<open>\<open>update\<close>\<close>

text \<open>The sample and its finite difference against the sample before it.\<close>

definition update_sample :: "real \<Rightarrow> real \<Rightarrow> state \<Rightarrow> state" where
  "update_sample t a st =
     (let L = length (angles st);
          st1 = st\<lparr>angles := angles st @ [(t, a)]\<rparr>
      in if 1 \<le> L then
           (let t0 = fst (angles st1 ! (L - 1));
                a0 = snd (angles st1 ! (L - 1));
                dt = max (1 / 1000000) (t - t0)
            in st1\<lparr>deriv := deriv st1 @ [(t, (a - a0) / dt)]\<rparr>)
         else st1)"

text \<open>The count of consecutive non-negative slopes.\<close>

definition update_streak :: "state \<Rightarrow> state" where
  "update_streak st =
     (if 1 \<le> length (deriv st) then
        (let dNow = snd (deriv st ! (length (deriv st) - 1))
         in st\<lparr>posStreak := (if 0 \<le> dNow then posStreak st + 1 else 0)\<rparr>)
      else st)"

text \<open>The primary rule.\<close>

definition update_primary :: "real \<Rightarrow> state \<Rightarrow> state" where
  "update_primary t st =
     (if 2 \<le> length (deriv st) then
        (let dPrev = snd (deriv st ! (length (deriv st) - 2));
             dNow = snd (deriv st ! (length (deriv st) - 1));
             sm = smoothedAngle st;
             lastCatchOk =
               (length (catches st) = 0 \<or>
                t - catches st ! (length (catches st) - 1) > minCatchIntervalSec st)
         in if sm \<noteq> None \<and> dPrev < 0 \<and> 0 \<le> dNow
               \<and> js_le (the sm) (catchAngleMax st)
               \<and> lastCatchOk
               \<and> int (posStreak st) \<ge> confirmFrames st
               \<and> isLocalMin st
            then st\<lparr>catches := catches st @ [t]\<rparr>
            else st)
      else st)"

text \<open>
  The fallback rule. \<open>last\<close> is \<open>undefined\<close> when there is no catch; \<open>last && \<dots>\<close> is
  falsy when \<open>last\<close> is \<open>undefined\<close> and also when it is the number \<open>0\<close>.
\<close>

definition update_fallback :: "real \<Rightarrow> state \<Rightarrow> state" where
  "update_fallback t st =
     (let sm2 = smoothedAngle st
      in if sm2 \<noteq> None
            \<and> js_le (the sm2) (catchAngleMax st)
            \<and> isLocalMin st
            \<and> (length (catches st) = 0 \<or>
               t - catches st ! (length (catches st) - 1) > minCatchIntervalSec st)
         then
           (let last_truthy =
                  (catches st \<noteq> [] \<and> catches st ! (length (catches st) - 1) \<noteq> 0)
            in if \<not> (last_truthy \<and>
                      \<bar>catches st ! (length (catches st) - 1) - t\<bar> < 1 / 1000)
               then st\<lparr>catches := catches st @ [t]\<rparr>
               else st)
         else st)"

text \<open>
  The finish. \<open>reduce\<close> without an initial value starts from the first element of the
  window, which has at least three.
\<close>

definition max_sample :: "real \<times> real \<Rightarrow> real \<times> real \<Rightarrow> real \<times> real" where
  "max_sample m p = (if snd p > snd m then p else m)"

definition reduce_max :: "(real \<times> real) list \<Rightarrow> real \<times> real" where
  "reduce_max w = foldl max_sample (hd w) (tl w)"

definition catch_window :: "state \<Rightarrow> (real \<times> real) list" where
  "catch_window st =
     filter (\<lambda>p. fst p \<ge> catches st ! (length (catches st) - 1)) (angles st)"

definition update_finish :: "state \<Rightarrow> state" where
  "update_finish st =
     (if 1 \<le> length (catches st) then
        (let window = catch_window st
         in if 3 \<le> length window then
              (let maxP = reduce_max window
               in if length (finishes st) = 0
                     \<or> fst maxP > finishes st ! (length (finishes st) - 1)
                  then st\<lparr>finishes := finishes st @ [fst maxP]\<rparr>
                  else st)
            else st)
      else st)"

definition update_finite :: "real \<Rightarrow> real \<Rightarrow> state \<Rightarrow> state" where
  "update_finite t a st =
     update_finish (update_fallback t (update_primary t (update_streak (update_sample t a st))))"

definition update :: "real \<Rightarrow> jsnum \<Rightarrow> state \<Rightarrow> state" where
  "update t angle st = (if \<not> isFinite angle then st else
     (case angle of Fin a \<Rightarrow> update_finite t a st | _ \<Rightarrow> st))"

text \<open>A session: the calls of \<open>update\<close> in order, each with its timestamp and angle.\<close>

definition run :: "state \<Rightarrow> (real \<times> jsnum) list \<Rightarrow> state" where
  "run st calls = foldl (\<lambda>s c. update (fst c) (snd c) s) st calls"

subsection \<open>\<open>summary\<close>\<close>

record summary_result =
  strokes :: nat
  spm :: real
  drr :: "real option"

text \<open>The inter-catch periods longer than a tenth of a second, in order.\<close>

definition periods_body :: "real list \<Rightarrow> nat \<Rightarrow> real list \<Rightarrow> real list" where
  "periods_body cs i periods =
     (let dt = cs ! (i + 1) - cs ! i
      in if dt > 1 / 10 then periods @ [dt] else periods)"

definition summary_periods :: "real list \<Rightarrow> real list" where
  "summary_periods cs = fold (periods_body cs) [0 ..< length cs - 1] []"

text \<open>
  The backward scan for the drive/recovery ratio, from index \<open>i\<close> down to \<open>0\<close>; \<open>null\<close>
  is \<open>None\<close>. Every index it reads is below both lengths.
\<close>

function drr_scan :: "real list \<Rightarrow> real list \<Rightarrow> int \<Rightarrow> real option" where
  "drr_scan cs fs i =
     (if 0 \<le> i then
        (let tC = cs ! nat i;
             tF = fs ! nat i;
             tN = cs ! nat (i + 1)
         in if tC < tF \<and> tF < tN then
              (let drive = tF - tC;
                   rec = tN - tF
               in if drive > 0 \<and> rec > 0 then Some (drive / rec)
                  else drr_scan cs fs (i - 1))
            else drr_scan cs fs (i - 1))
      else None)"
  by pat_completeness auto
termination
  by (relation "measure (\<lambda>(cs, fs, i). nat (i + 1))") auto

declare drr_scan.simps [simp del]

definition summary :: "state \<Rightarrow> summary_result" where
  "summary st =
     (let n = length (catches st) in
      if 2 \<le> n then
        (let periods = summary_periods (catches st)
         in \<lparr> strokes = n,
              spm = (if length periods \<noteq> 0
                     then (let avg = foldl (+) 0 periods / real (length periods) in 60 / avg)
                     else 0),
              drr = drr_scan (catches st) (finishes st)
                      (min (int (length (finishes st))) (int (length (catches st)) - 1) - 1) \<rparr>)
      else \<lparr> strokes = n, spm = 0, drr = None \<rparr>)"

section \<open>The frame handler's catch threshold\<close>

text \<open>
  The part of \<open>onResults\<close> that feeds the detector: the window of recent knee angles
  \<open>kneeWindow\<close> (entries \<open>{t, angle}\<close> as pairs), the switch \<open>autoCatch\<close>, the operator's
  threshold \<open>manualCatchThresh\<close> (read by \<open>parseFloat\<close>) and the detector \<open>stroke\<close>.
\<close>

record tracker =
  kneeWindow :: "(real \<times> real) list"
  autoCatch :: bool
  manualCatchThresh :: jsnum
  stroke :: state

definition kneeWindowSec :: real where
  "kneeWindowSec = 8"

text \<open>A non-finite angle leaves the window as it is; otherwise the sample is pushed and
  the entries at the front that are older than the window are shifted out.\<close>

definition updateKneeWindow :: "real \<Rightarrow> jsnum \<Rightarrow> (real \<times> real) list \<Rightarrow> (real \<times> real) list" where
  "updateKneeWindow t angle kw =
     (case angle of
        Fin a \<Rightarrow> (let tMin = t - kneeWindowSec in dropWhile (\<lambda>k. fst k < tMin) (kw @ [(t, a)]))
      | _ \<Rightarrow> kw)"

text \<open>One round of the loop over the window: the running minimum and maximum.\<close>

definition minmax_body :: "real \<times> real \<Rightarrow> jsnum \<times> jsnum \<Rightarrow> jsnum \<times> jsnum" where
  "minmax_body k acc =
     (let minA = (if js_lt (Fin (snd k)) (fst acc) then Fin (snd k) else fst acc);
          maxA = (if js_lt (snd acc) (Fin (snd k)) then Fin (snd k) else snd acc)
      in (minA, maxA))"

text \<open>
  \<open>estimateCatchThreshold\<close>. With ten samples or more both bounds are finite after the
  loop. The last case is what the arithmetic gives on the untouched sentinels
  \<open>Infinity\<close> and \<open>-Infinity\<close>: the range is \<open>max(1, -Infinity) = 1\<close>, the threshold
  \<open>Infinity\<close>, and the clamp returns \<open>130\<close>.
\<close>

definition estimateCatchThreshold :: "(real \<times> real) list \<Rightarrow> jsnum \<Rightarrow> jsnum" where
  "estimateCatchThreshold kw manual =
     (if length kw < 10 then manual
      else
        (case fold minmax_body kw (PosInf, NegInf) of
           (Fin minA, Fin maxA) \<Rightarrow>
             (let range = max 1 (maxA - minA);
                  thr = minA + 35 / 100 * range
              in Fin (max 70 (min 130 thr)))
         | _ \<Rightarrow> Fin 130))"

definition onResults_detect :: "tracker \<Rightarrow> real \<Rightarrow> jsnum \<Rightarrow> tracker" where
  "onResults_detect app tSec kneeAngle =
     (let kw = updateKneeWindow tSec kneeAngle (kneeWindow app);
          thr = (if autoCatch app then estimateCatchThreshold kw (manualCatchThresh app)
                 else manualCatchThresh app)
      in app\<lparr>kneeWindow := kw,
              stroke := update tSec kneeAngle ((stroke app)\<lparr>catchAngleMax := thr\<rparr>)\<rparr>)"

text \<open>
  The module state when the page has loaded, for a given state of the checkbox and of the
  threshold field, and a session of frames handled in order.
\<close>

definition page_load :: "bool \<Rightarrow> jsnum \<Rightarrow> tracker" where
  "page_load auto manual =
     \<lparr> kneeWindow = [], autoCatch = auto, manualCatchThresh = manual,
       stroke = StrokeState (no_options\<lparr>cfg_catchAngleMax := Some (Fin 110), cfg_smooth := Some 5\<rparr>) \<rparr>"

definition frames :: "tracker \<Rightarrow> (real \<times> jsnum) list \<Rightarrow> tracker" where
  "frames app fs = foldl (\<lambda>a f. onResults_detect a (fst f) (snd f)) app fs"

section \<open>The summary in the specification's words\<close>

text \<open>The consecutive inter-catch intervals, and the mean of a list of intervals.\<close>

definition inter_catch_intervals :: "real list \<Rightarrow> real list" where
  "inter_catch_intervals cs = map (\<lambda>i. cs ! Suc i - cs ! i) [0 ..< length cs - 1]"

definition mean :: "real list \<Rightarrow> real" where
  "mean xs = sum_list xs / real (length xs)"

text \<open>
  Index \<open>i\<close> names a triple \<open>(catch[i], finish[i], catch[i+1])\<close> with
  \<open>catch[i] < finish[i] < catch[i+1]\<close> and both durations positive.
\<close>

definition stroke_triple :: "real list \<Rightarrow> real list \<Rightarrow> nat \<Rightarrow> bool" where
  "stroke_triple cs fs i \<longleftrightarrow>
     i < length fs \<and> Suc i < length cs \<and> cs ! i < fs ! i \<and> fs ! i < cs ! Suc i
     \<and> 0 < fs ! i - cs ! i \<and> 0 < cs ! Suc i - fs ! i"

text \<open>The adaptive threshold as the specification words it:
  \<open>windowMin + 0.35 \<times> (windowMax - windowMin)\<close>, clamped to \<open>[70, 130]\<close>.\<close>

definition claimed_threshold :: "(real \<times> real) list \<Rightarrow> real" where
  "claimed_threshold kw =
     (let windowMin = Min (snd ` set kw); windowMax = Max (snd ` set kw)
      in max 70 (min 130 (windowMin + 35 / 100 * (windowMax - windowMin))))"

text \<open>
  The samples of a session, that is, its frames with a finite angle, and those of them
  that lie in the \<open>kneeWindowSec\<close> seconds up to time \<open>t\<close>.
\<close>

fun finite_samples :: "(real \<times> jsnum) list \<Rightarrow> (real \<times> real) list" where
  "finite_samples [] = []"
| "finite_samples ((t, Fin a) # fs) = (t, a) # finite_samples fs"
| "finite_samples (f # fs) = finite_samples fs"

definition trailing_window :: "real \<Rightarrow> (real \<times> jsnum) list \<Rightarrow> (real \<times> real) list" where
  "trailing_window t fs = filter (\<lambda>k. t - kneeWindowSec \<le> fst k) (finite_samples fs)"

section \<open>The invariant of the finish list\<close>

text \<open>
  What holds between the rules and the finish step of a call at time \<open>T\<close>: no stored
  timestamp is later than \<open>T\<close>, the finish list is strictly increasing, and when there is
  a catch, the window of samples at or after it is not empty and its maximum is not
  earlier than the last finish.
\<close>

definition finish_pre :: "real \<Rightarrow> state \<Rightarrow> bool" where
  "finish_pre T st \<longleftrightarrow>
     (\<forall>p\<in>set (angles st). fst p \<le> T) \<and>
     (\<forall>f\<in>set (finishes st). f \<le> T) \<and>
     (\<forall>c\<in>set (catches st). c \<le> T) \<and>
     successively (<) (finishes st) \<and>
     (catches st \<noteq> [] \<longrightarrow>
        catch_window st \<noteq> [] \<and>
        (finishes st \<noteq> [] \<longrightarrow> last (finishes st) \<le> fst (reduce_max (catch_window st))))"

text \<open>What holds after the call: in addition, a window of three samples or more has its
  maximum as the last finish.\<close>

definition finish_inv :: "real \<Rightarrow> state \<Rightarrow> bool" where
  "finish_inv T st \<longleftrightarrow>
     finish_pre T st \<and>
     (catches st \<noteq> [] \<and> 3 \<le> length (catch_window st) \<longrightarrow>
        finishes st \<noteq> [] \<and> last (finishes st) = fst (reduce_max (catch_window st)))"

section \<open>Sample sessions\<close>

text \<open>
  A knee angle that falls for eleven frames, one frame a second, and the three frames
  of the drive that follows it.
\<close>

definition descent :: "(real \<times> jsnum) list" where
  "descent =
     [(0, Fin 100), (1, Fin 90), (2, Fin 80), (3, Fin 70), (4, Fin 69), (5, Fin 68),
      (6, Fin 67), (7, Fin 66), (8, Fin 65), (9, Fin 64), (10, Fin 63)]"

definition drive_frames :: "(real \<times> jsnum) list" where
  "drive_frames = [(11, Fin 100), (12, Fin 120), (13, Fin 110)]"

text \<open>A whole stroke: the descent to the first catch, a drive of three frames, and the
  frame of the second catch.\<close>

definition stroke_cycle :: "(real \<times> jsnum) list" where
  "stroke_cycle = take 9 descent @ [(9, Fin 70), (10, Fin 80), (11, Fin 90), (12, Fin 60)]"

text \<open>
  A detector whose \<open>windowSize\<close> field was assigned \<open>1\<close> after construction, in the
  middle of \<open>update(2, 95)\<close>: the sample is stored and the streak is counted.
\<close>

definition narrow_window_state :: state where
  "narrow_window_state =
     \<lparr> catchAngleMax = Fin 110, smooth = 1, minCatchIntervalSec = 9 / 10,
       confirmFrames = 1, windowSize = 1,
       angles = [(0, 100), (1, 90), (2, 95)],
       deriv = [(1, - 10), (2, 5)],
       catches = [], finishes = [], posStreak = 1 \<rparr>"

text \<open>Ten frames in one second, with a knee angle that does not move.\<close>

definition flat_frames :: "(real \<times> jsnum) list" where
  "flat_frames =
     [(0, Fin 100), (1 / 10, Fin 100), (2 / 10, Fin 100), (3 / 10, Fin 100), (4 / 10, Fin 100),
      (5 / 10, Fin 100), (6 / 10, Fin 100), (7 / 10, Fin 100), (8 / 10, Fin 100), (9 / 10, Fin 100)]"

text \<open>
  Three early frames, the last without a knee angle, and nineteen seconds later ten
  frames in one second with a knee angle that rises by two degrees a frame.
\<close>

definition stale_frames :: "(real \<times> jsnum) list" where
  "stale_frames = [(0, Fin 60), (1, Fin 170), (2, NaN)]"

definition late_frames :: "(real \<times> jsnum) list" where
  "late_frames =
     [(20, Fin 100), (201 / 10, Fin 102), (202 / 10, Fin 104), (203 / 10, Fin 106),
      (204 / 10, Fin 108), (205 / 10, Fin 110), (206 / 10, Fin 112), (207 / 10, Fin 114),
      (208 / 10, Fin 116), (209 / 10, Fin 118)]"



section \<open>The geometry functions\<close>

lemma hypot_eq_0_iff: "hypot u v = 0 \<longleftrightarrow> u = 0 \<and> v = 0"
proof -
  have "u * u + v * v = 0 \<longleftrightarrow> u = 0 \<and> v = 0"
    by (simp add: add_nonneg_eq_0_iff)
  then show ?thesis by (simp add: hypot_def)
qed











section \<open>\<open>angleAt\<close> and the range of the doubles\<close>

lemma double_overflow_pos: "1 < double_overflow"
proof -
  have "(2::real) ^ 1024 = 2 ^ 54 * 2 ^ 970" by (simp add: power_add [symmetric])
  then have "double_overflow = (2 ^ 54 - 1) * 2 ^ 970"
    by (simp add: double_overflow_def algebra_simps)
  moreover have "(1::real) \<le> 2 ^ 970" by simp
  moreover have "(1::real) < 2 ^ 54 - 1" by simp
  ultimately show ?thesis
    by (metis less_le_trans mult.right_neutral mult_le_cancel_left_pos less_trans zero_less_one)
qed

lemma hypot_axis [simp]: "hypot u 0 = \<bar>u\<bar>" "hypot 0 v = \<bar>v\<bar>"
  by (simp_all add: hypot_def)

lemma fl_ovf_Fin: "\<bar>r\<bar> < double_overflow \<Longrightarrow> fl_ovf r = Fin r"
  by (auto simp: fl_ovf_def)

lemma fl_ovf_small: "\<bar>r\<bar> \<le> 1 \<Longrightarrow> fl_ovf r = Fin r"
  using double_overflow_pos by (intro fl_ovf_Fin) linarith

lemma fl_underflow: "\<bar>r\<bar> \<le> double_underflow \<Longrightarrow> fl r = Fin 0"
  by (simp add: fl_def)

lemma hypot_nonneg [simp]: "0 \<le> hypot u v"
  by (simp add: hypot_def)

lemma fl_in_range: "in_double_range r \<Longrightarrow> fl r = Fin r"
  by (auto simp: in_double_range_def fl_def fl_ovf_def)

lemma double_underflow_small: "0 < double_underflow" "double_underflow < 1"
  by (simp_all add: double_underflow_def)

lemma in_double_range_0 [simp]: "in_double_range 0"
  using double_overflow_pos by (simp add: in_double_range_def)

lemma in_double_range_1 [simp]: "in_double_range 1"
  using double_overflow_pos double_underflow_small by (simp add: in_double_range_def)

lemma dot_le_hypot: "\<bar>u1 * u2 + v1 * v2\<bar> \<le> hypot u1 v1 * hypot u2 v2"
proof -
  have "(u1 * u1 + v1 * v1) * (u2 * u2 + v2 * v2) - (u1 * u2 + v1 * v2)\<^sup>2 = (u1 * v2 - v1 * u2)\<^sup>2"
    by (simp add: power2_eq_square algebra_simps)
  then have "(u1 * u2 + v1 * v2)\<^sup>2 \<le> (u1 * u1 + v1 * v1) * (u2 * u2 + v2 * v2)"
    by (metis diff_ge_0_iff_ge zero_le_power2)
  then have "sqrt ((u1 * u2 + v1 * v2)\<^sup>2) \<le> sqrt ((u1 * u1 + v1 * v1) * (u2 * u2 + v2 * v2))"
    by (rule real_sqrt_le_mono)
  then show ?thesis by (simp add: hypot_def real_sqrt_mult)
qed

lemma angleAt_zero_length:
  assumes "(px a, py a) = (px b, py b) \<or> (px c, py c) = (px b, py b)"
  shows "angleAt a b c = NaN"
proof -
  have "fl_ovf 0 = Fin 0" by (simp add: fl_ovf_small)
  with assms show ?thesis
    by (auto simp: angleAt_def Let_def)
qed

lemma angleAt_perpendicular:
  "angleAt \<lparr>px = 0, py = 1\<rparr> \<lparr>px = 0, py = 0\<rparr> \<lparr>px = 1, py = 0\<rparr> = Fin 90"
proof -
  have "fl_ovf 0 = Fin 0" "fl_ovf 1 = Fin 1" "fl 0 = Fin 0" "fl 1 = Fin 1"
    by (simp_all add: fl_ovf_small fl_in_range)
  then show ?thesis
    by (simp add: angleAt_def Let_def js_min_def js_max_def)
qed

text \<open>
  Where no intermediate result leaves the range, \<open>angleAt\<close> is the interior angle: a
  number of degrees in \<open>[0, 180]\<close> whose cosine is the normalised dot product of the two
  rays.
\<close>

lemma angleAt_interior_angle:
  assumes ne: "(px a, py a) \<noteq> (px b, py b)" "(px c, py c) \<noteq> (px b, py b)"
    and rng: "angleAt_in_range a b c"
  shows "\<exists>r. angleAt a b c = Fin r \<and> 0 \<le> r \<and> r \<le> 180
     \<and> cos (r * pi / 180)
         = ((px a - px b) * (px c - px b) + (py a - py b) * (py c - py b))
           / (hypot (px a - px b) (py a - py b) * hypot (px c - px b) (py c - py b))"
proof -
  define bax bay bcx bcy where "bax = px a - px b" and "bay = py a - py b"
    and "bcx = px c - px b" and "bcy = py c - py b"
  define dot where "dot = bax * bcx + bay * bcy"
  define magBA magBC where "magBA = hypot bax bay" and "magBC = hypot bcx bcy"
  define q where "q = dot / (magBA * magBC)"
  note defs = bax_def bay_def bcx_def bcy_def dot_def magBA_def magBC_def q_def
  from rng have r: "\<bar>bax\<bar> < double_overflow" "\<bar>bay\<bar> < double_overflow"
    "\<bar>bcx\<bar> < double_overflow" "\<bar>bcy\<bar> < double_overflow"
    "in_double_range (bax * bcx)" "in_double_range (bay * bcy)"
    "\<bar>dot\<bar> < double_overflow" "magBA < double_overflow" "magBC < double_overflow"
    "in_double_range (magBA * magBC)" "in_double_range q"
    unfolding angleAt_in_range_def Let_def defs by blast+
  from ne have pos: "0 < magBA" "0 < magBC"
    unfolding magBA_def magBC_def bax_def bay_def bcx_def bcy_def
    using hypot_eq_0_iff hypot_nonneg by (metis eq_iff_diff_eq_0 less_eq_real_def)+
  have steps: "fl_ovf bax = Fin bax" "fl_ovf bay = Fin bay" "fl_ovf bcx = Fin bcx" "fl_ovf bcy = Fin bcy"
    "fl (bax * bcx) = Fin (bax * bcx)" "fl (bay * bcy) = Fin (bay * bcy)"
    "fl_ovf dot = Fin dot" "fl_ovf magBA = Fin magBA" "fl_ovf magBC = Fin magBC"
    "fl (magBA * magBC) = Fin (magBA * magBC)" "fl q = Fin q"
    using r pos by (simp_all add: fl_ovf_Fin fl_in_range)
  from dot_le_hypot [of bax bcx bay bcy] have "\<bar>dot\<bar> \<le> magBA * magBC"
    by (simp add: dot_def magBA_def magBC_def)
  with pos have q1: "- 1 \<le> q" "q \<le> 1"
    by (simp_all add: q_def field_simps abs_le_iff)
  have "angleAt a b c = Fin (arccos q * 180 / pi)"
    using pos q1 steps
    by (simp add: angleAt_def Let_def defs [symmetric] js_min_def js_max_def)
  moreover from q1 have "0 \<le> arccos q" "arccos q \<le> pi"
    by (simp_all add: arccos_lbound arccos_ubound)
  then have "0 \<le> arccos q * 180 / pi" "arccos q * 180 / pi \<le> 180"
    using pi_gt_zero by (simp_all add: field_simps)
  moreover from q1 have "cos (arccos q * 180 / pi * pi / 180) = q"
    by (simp add: cos_arccos)
  ultimately show ?thesis unfolding defs by blast
qed

text \<open>The perpendicular triple of the test is such a call.\<close>

lemma angleAt_in_range_perpendicular:
  "angleAt_in_range \<lparr>px = 0, py = 1\<rparr> \<lparr>px = 0, py = 0\<rparr> \<lparr>px = 1, py = 0\<rparr>"
  using double_overflow_pos by (simp add: angleAt_in_range_def Let_def)

text \<open>
  C9 says that \<open>angleAt(a, b, c)\<close> is the interior angle at \<open>b\<close>, in \<open>[0, 180]\<close>, whenever
  both rays have nonzero length, and \<open>NaN\<close> when a ray has zero length. The code departs
  from it at rays of length \<open>2^-600\<close>: the triple \<open>a = (2^-600, 0)\<close>, \<open>b = (0, 0)\<close>,
  \<open>c = (0, 2^-600)\<close> is perpendicular and both rays have nonzero length, so the interior
  angle is 90 degrees; but the product of the two lengths, \<open>2^-1200\<close>, underflows to zero,
  the quotient is \<open>0 / 0\<close>, and \<open>angleAt\<close> returns \<open>NaN\<close>.
\<close>

theorem angleAt_tiny_rays:
  "(px \<lparr>px = 1 / 2 ^ 600, py = 0\<rparr>, py \<lparr>px = 1 / 2 ^ 600, py = 0\<rparr>)
      \<noteq> (px \<lparr>px = 0, py = 0\<rparr>, py \<lparr>px = 0, py = 0\<rparr>)
   \<and> (px \<lparr>px = 0, py = 1 / 2 ^ 600\<rparr>, py \<lparr>px = 0, py = 1 / 2 ^ 600\<rparr>)
      \<noteq> (px \<lparr>px = 0, py = 0\<rparr>, py \<lparr>px = 0, py = 0\<rparr>)
   \<and> angleAt \<lparr>px = 1 / 2 ^ 600, py = 0\<rparr> \<lparr>px = 0, py = 0\<rparr> \<lparr>px = 0, py = 1 / 2 ^ 600\<rparr> = NaN"
proof -
  define e :: real where "e = 1 / 2 ^ 600"
  have e: "0 < e" "e \<le> 1" by (simp_all add: e_def)
  have sub: "fl_ovf e = Fin e" "fl_ovf 0 = Fin 0"
    using e by (simp_all add: fl_ovf_small)
  have "e * e = 1 / 2 ^ 1200" by (simp add: e_def power_add [symmetric])
  also have "\<dots> \<le> double_underflow"
    unfolding double_underflow_def by (intro divide_left_mono) simp_all
  finally have "\<bar>e * e\<bar> \<le> double_underflow" using e by simp
  then have prod: "fl (e * e) = Fin 0" by (rule fl_underflow)
  have zero: "fl 0 = Fin 0" by (simp add: fl_def double_underflow_def)
  have "angleAt \<lparr>px = e, py = 0\<rparr> \<lparr>px = 0, py = 0\<rparr> \<lparr>px = 0, py = e\<rparr> = NaN"
    using e by (simp add: angleAt_def Let_def sub prod zero js_min_def js_max_def inf_of_sign_def abs_of_pos)
  moreover have "e \<noteq> 0" using e by simp
  ultimately show ?thesis unfolding e_def by simp
qed


section \<open>Construction\<close>

text \<open>
  C4, as amended. For every configuration, the constructor stores a \<open>smooth\<close> of at
  least 1, a \<open>confirmFrames\<close> of at least 1 and a \<open>windowSize\<close> of at least 3, whatever
  the given values are; \<open>minCatchIntervalSec\<close> is stored as it is given (0.9 when it is
  absent), without a clamp.
\<close>

theorem StrokeState_clamps_windows:
  "1 \<le> smooth (StrokeState c) \<and> 1 \<le> confirmFrames (StrokeState c)
   \<and> 3 \<le> windowSize (StrokeState c)
   \<and> minCatchIntervalSec (StrokeState c) = dflt (9 / 10) (cfg_minCatchIntervalSec c)"
  by (simp add: StrokeState_def)

text \<open>
  C4, as stated, fails for the interval: a configuration that gives
  \<open>minCatchIntervalSec = -1\<close> makes a detector whose interval is \<open>-1\<close>, not a positive one.
\<close>

theorem StrokeState_interval_not_clamped:
  "minCatchIntervalSec (StrokeState (no_options\<lparr>cfg_minCatchIntervalSec := Some (- 1)\<rparr>)) = - 1"
  by (simp add: StrokeState_def no_options_def dflt_def)

section \<open>The catch list\<close>

lemma nth_length_minus_1:
  "xs \<noteq> [] \<Longrightarrow> xs ! (length xs - Suc 0) = last xs"
  by (simp add: last_conv_nth)

lemma update_sample_fields [simp]:
  "catches (update_sample t a st) = catches st"
  "finishes (update_sample t a st) = finishes st"
  "minCatchIntervalSec (update_sample t a st) = minCatchIntervalSec st"
  "angles (update_sample t a st) = angles st @ [(t, a)]"
  by (simp_all add: update_sample_def Let_def)

lemma update_streak_fields [simp]:
  "catches (update_streak st) = catches st"
  "finishes (update_streak st) = finishes st"
  "minCatchIntervalSec (update_streak st) = minCatchIntervalSec st"
  "angles (update_streak st) = angles st"
  by (simp_all add: update_streak_def Let_def)

lemma update_primary_fields [simp]:
  "finishes (update_primary t st) = finishes st"
  "minCatchIntervalSec (update_primary t st) = minCatchIntervalSec st"
  "angles (update_primary t st) = angles st"
  by (simp_all add: update_primary_def Let_def)

lemma update_fallback_fields [simp]:
  "finishes (update_fallback t st) = finishes st"
  "minCatchIntervalSec (update_fallback t st) = minCatchIntervalSec st"
  "angles (update_fallback t st) = angles st"
  by (simp_all add: update_fallback_def Let_def)

lemma update_finish_fields [simp]:
  "catches (update_finish st) = catches st"
  "minCatchIntervalSec (update_finish st) = minCatchIntervalSec st"
  "angles (update_finish st) = angles st"
  by (simp_all add: update_finish_def Let_def)

text \<open>Each rule leaves the catch list alone or appends the current timestamp, and it
  appends only past the refractory interval.\<close>

lemma update_primary_catches:
  "catches (update_primary t st) = catches st \<or>
   (catches (update_primary t st) = catches st @ [t] \<and>
    (catches st = [] \<or> minCatchIntervalSec st < t - last (catches st)))"
  by (cases "catches st = []") (auto simp: update_primary_def Let_def nth_length_minus_1)

lemma update_fallback_catches:
  "catches (update_fallback t st) = catches st \<or>
   (catches (update_fallback t st) = catches st @ [t] \<and>
    (catches st = [] \<or> minCatchIntervalSec st < t - last (catches st)))"
  by (cases "catches st = []") (auto simp: update_fallback_def Let_def nth_length_minus_1)

text \<open>With a positive interval the fallback rule does nothing on a state whose last
  catch is the current timestamp: \<open>t - t\<close> does not exceed the interval.\<close>

lemma update_fallback_after_catch:
  assumes "0 < minCatchIntervalSec st" and "catches st \<noteq> []" and "last (catches st) = t"
  shows "update_fallback t st = st"
  using assms by (simp add: update_fallback_def Let_def nth_length_minus_1)

lemma update_primary_then_fallback:
  assumes "0 < minCatchIntervalSec st" and "catches (update_primary t st) \<noteq> catches st"
  shows "update_fallback t (update_primary t st) = update_primary t st"
proof -
  from update_primary_catches [of t st] assms(2)
  have "catches (update_primary t st) = catches st @ [t]" by blast
  with assms(1) show ?thesis
    by (intro update_fallback_after_catch) simp_all
qed

lemma update_finite_catches:
  assumes "0 < minCatchIntervalSec st"
  shows "catches (update_finite t a st) = catches st \<or>
   (catches (update_finite t a st) = catches st @ [t] \<and>
    (catches st = [] \<or> minCatchIntervalSec st < t - last (catches st)))"
proof -
  let ?s2 = "update_streak (update_sample t a st)"
  let ?s3 = "update_primary t ?s2"
  have c2: "catches ?s2 = catches st"
    and m2: "minCatchIntervalSec ?s2 = minCatchIntervalSec st"
    by simp_all
  show ?thesis
  proof (cases "catches ?s3 = catches ?s2")
    case True
    with update_fallback_catches [of t ?s3] c2 m2 show ?thesis
      by (auto simp: update_finite_def)
  next
    case False
    with update_primary_catches [of t ?s2] c2 m2
    have fired: "catches ?s3 = catches st @ [t]"
      and gap: "catches st = [] \<or> minCatchIntervalSec st < t - last (catches st)"
      by auto
    have "update_fallback t ?s3 = ?s3"
      using assms False m2 by (intro update_primary_then_fallback) simp_all
    with fired gap show ?thesis by (simp add: update_finite_def)
  qed
qed

lemma update_catches:
  assumes "0 < minCatchIntervalSec st"
  shows "catches (update t angle st) = catches st \<or>
   (catches (update t angle st) = catches st @ [t] \<and>
    (catches st = [] \<or> minCatchIntervalSec st < t - last (catches st)))"
  using update_finite_catches [OF assms]
  by (cases angle) (simp_all add: update_def)

lemma update_minCatchIntervalSec [simp]:
  "minCatchIntervalSec (update t angle st) = minCatchIntervalSec st"
  by (cases angle) (simp_all add: update_def update_finite_def)

lemma run_snoc: "run st (calls @ [c]) = update (fst c) (snd c) (run st calls)"
  by (simp add: run_def)

lemma run_Nil [simp]: "run st [] = st"
  by (simp add: run_def)

lemma run_minCatchIntervalSec [simp]:
  "minCatchIntervalSec (run st calls) = minCatchIntervalSec st"
  by (induction calls rule: rev_induct) (simp_all add: run_snoc)

text \<open>
  C10. On every state with a positive \<open>minCatchIntervalSec\<close> (the reachable ones among
  them), one call of \<open>update\<close> leaves the catch list as it is or appends the one
  timestamp \<open>t\<close>; and when the primary rule has appended, the fallback rule changes
  nothing, because its refractory comparison against the catch just appended fails.
\<close>

theorem update_appends_at_most_one_catch:
  assumes "0 < minCatchIntervalSec st"
  shows "(catches (update t angle st) = catches st \<or> catches (update t angle st) = catches st @ [t])
    \<and> length (catches (update t angle st)) \<le> Suc (length (catches st))
    \<and> (catches (update_primary t st) \<noteq> catches st \<longrightarrow>
         update_fallback t (update_primary t st) = update_primary t st)"
proof -
  from update_catches [OF assms, of t angle]
  have one: "catches (update t angle st) = catches st \<or> catches (update t angle st) = catches st @ [t]"
    by blast
  then have "length (catches (update t angle st)) \<le> Suc (length (catches st))"
    by auto
  with one update_primary_then_fallback [OF assms, of t] show ?thesis
    by blast
qed

theorem update_appends_at_most_one_catch_witness:
  "0 < minCatchIntervalSec (run (StrokeState no_options) (take 8 descent))
   \<and> catches (run (StrokeState no_options) (take 8 descent)) = []
   \<and> catches (update 8 (Fin 65) (run (StrokeState no_options) (take 8 descent))) = [8]
   \<and> 0 < minCatchIntervalSec narrow_window_state
   \<and> catches (update_primary 2 narrow_window_state) = [2]
   \<and> update_fallback 2 (update_primary 2 narrow_window_state) = update_primary 2 narrow_window_state"
proof -
  let ?st = "run (StrokeState no_options) (take 8 descent)"
  have m: "0 < minCatchIntervalSec ?st" by code_simp
  have c0: "catches ?st = []" by code_simp
  have c1: "catches (update 8 (Fin 65) ?st) = [8]" by code_simp
  have m': "0 < minCatchIntervalSec narrow_window_state" by code_simp
  have p: "catches (update_primary 2 narrow_window_state) = [2]" by code_simp
  have p0: "catches narrow_window_state = []" by code_simp
  from update_appends_at_most_one_catch [OF m', of 2 NaN] p p0
  have "update_fallback 2 (update_primary 2 narrow_window_state)
        = update_primary 2 narrow_window_state"
    by simp
  with m c0 c1 m' p show ?thesis by blast
qed

subsection \<open>The primary rule and the local-minimum check\<close>

text \<open>
  The primary rule asks for a non-negative last slope, that is, a sample not below the
  one before it, and for \<open>_isLocalMin\<close>, that is, a sample strictly below every other
  sample of the window. With a window of two or more the two cannot hold together, so
  on a detector made by the constructor (\<open>windowSize\<close> at least 3) every catch comes from
  the fallback rule.
\<close>

lemma isLocalMin_scan:
  assumes "i < j"
  shows "\<exists>m idx. fold (isLocalMin_body s) [i ..< j] (PosInf, - 1) = (Fin m, idx)
      \<and> idx < int j \<and> (\<forall>k. i \<le> k \<and> k < j \<longrightarrow> m \<le> snd (angles s ! k))"
  using assms
proof (induction j)
  case 0
  then show ?case by simp
next
  case (Suc j)
  show ?case
  proof (cases "i = j")
    case True
    then have "fold (isLocalMin_body s) [i ..< Suc j] (PosInf, - 1) = (Fin (snd (angles s ! j)), int j)"
      by (simp add: isLocalMin_body_def)
    moreover have "\<forall>k. i \<le> k \<and> k < Suc j \<longrightarrow> snd (angles s ! j) \<le> snd (angles s ! k)"
      using True by (metis le_antisym less_Suc_eq_le order_refl)
    ultimately show ?thesis by auto
  next
    case False
    with Suc.prems have "i < j" by simp
    from Suc.IH [OF this] obtain m idx
      where acc: "fold (isLocalMin_body s) [i ..< j] (PosInf, - 1) = (Fin m, idx)"
        and idx: "idx < int j"
        and low: "\<forall>k. i \<le> k \<and> k < j \<longrightarrow> m \<le> snd (angles s ! k)"
      by blast
    show ?thesis
    proof (cases "snd (angles s ! j) < m")
      case True
      then have "fold (isLocalMin_body s) [i ..< Suc j] (PosInf, - 1) = (Fin (snd (angles s ! j)), int j)"
        using \<open>i < j\<close> by (simp add: acc isLocalMin_body_def)
      moreover from True low have "\<forall>k. i \<le> k \<and> k < Suc j \<longrightarrow> snd (angles s ! j) \<le> snd (angles s ! k)"
        by (metis less_Suc_eq less_eq_real_def order_trans)
      ultimately show ?thesis by auto
    next
      case False
      then have "fold (isLocalMin_body s) [i ..< Suc j] (PosInf, - 1) = (Fin m, idx)"
        using \<open>i < j\<close> by (simp add: acc isLocalMin_body_def)
      moreover from False low have "\<forall>k. i \<le> k \<and> k < Suc j \<longrightarrow> m \<le> snd (angles s ! k)"
        by (metis less_Suc_eq not_less)
      ultimately show ?thesis using idx by auto
    qed
  qed
qed

text \<open>A sample that is not below the one before it is not the strict minimum of a window
  of two or more.\<close>

lemma isLocalMin_needs_descent:
  assumes w: "2 \<le> windowSize s" and n: "2 \<le> length (angles s)"
    and up: "snd (angles s ! (length (angles s) - 2)) \<le> snd (angles s ! (length (angles s) - 1))"
  shows "\<not> isLocalMin s"
proof (cases "int (length (angles s)) < windowSize s")
  case True
  then show ?thesis by (simp add: isLocalMin_def)
next
  case False
  define L where "L = length (angles s) - 1"
  from n have len: "length (angles s) = Suc L" and L1: "1 \<le> L" by (simp_all add: L_def)
  define i where "i = nat (max 0 (int L - windowSize s + 1))"
  from w L1 have iL: "i < L" by (simp add: i_def)
  from isLocalMin_scan [OF iL, of s] obtain m idx
    where acc: "fold (isLocalMin_body s) [i ..< L] (PosInf, - 1) = (Fin m, idx)"
      and idx: "idx < int L"
      and low: "\<forall>k. i \<le> k \<and> k < L \<longrightarrow> m \<le> snd (angles s ! k)"
    by blast
  from low iL L1 have "m \<le> snd (angles s ! (L - 1))" by simp
  moreover from up have "snd (angles s ! (L - 1)) \<le> snd (angles s ! L)"
    by (simp add: len)
  ultimately have "\<not> snd (angles s ! L) < m" by simp
  moreover from iL have "[i ..< Suc L] = [i ..< L] @ [L]" by simp
  ultimately have "fold (isLocalMin_body s) [i ..< Suc L] (PosInf, - 1) = (Fin m, idx)"
    by (simp add: acc isLocalMin_body_def)
  with idx False show ?thesis
    by (simp add: isLocalMin_def Let_def len i_def nat_add_distrib)
qed

lemma update_primary_idle:
  assumes "2 \<le> windowSize st"
  shows "update_primary t (update_streak (update_sample t a st)) = update_streak (update_sample t a st)"
proof (cases "angles st = []")
  case True
  let ?s = "update_streak (update_sample t a st)"
  have "windowSize ?s = windowSize st" "angles ?s = [(t, a)]"
    using True by (simp_all add: update_streak_def update_sample_def Let_def)
  with assms have "\<not> isLocalMin ?s" by (simp add: isLocalMin_def)
  then show ?thesis by (simp add: update_primary_def Let_def)
next
  case False
  let ?s1 = "update_sample t a st"
  let ?s = "update_streak ?s1"
  define L where "L = length (angles st)"
  from False have L1: "1 \<le> L" by (simp add: L_def Suc_le_eq)
  define dt where "dt = max (1 / 1000000) (t - fst (angles st ! (L - 1)))"
  have dt: "0 < dt" by (simp add: dt_def max_def)
  define a0 where "a0 = snd (angles st ! (L - 1))"
  from L1 have d1: "deriv ?s1 = deriv st @ [(t, (a - a0) / dt)]"
    by (simp add: update_sample_def Let_def L_def [symmetric] nth_append dt_def a0_def)
  have ds: "deriv ?s = deriv ?s1" by (simp add: update_streak_def Let_def)
  have ws: "windowSize ?s = windowSize st"
    by (simp add: update_streak_def update_sample_def Let_def)
  have as: "angles ?s = angles st @ [(t, a)]" by simp
  show ?thesis
  proof (cases "0 \<le> (a - a0) / dt")
    case True
    with dt have "a0 \<le> a" by (simp add: zero_le_divide_iff)
    with L1 have "snd (angles ?s ! (length (angles ?s) - 2)) \<le> snd (angles ?s ! (length (angles ?s) - 1))"
      by (simp add: as L_def [symmetric] nth_append a0_def)
    moreover from L1 have "2 \<le> length (angles ?s)" by (simp add: as L_def)
    ultimately have "\<not> isLocalMin ?s"
      using assms ws by (intro isLocalMin_needs_descent) simp_all
    then show ?thesis by (simp add: update_primary_def Let_def)
  next
    case False
    then have "\<not> 0 \<le> snd (deriv ?s ! (length (deriv ?s) - 1))"
      by (simp add: ds d1)
    then show ?thesis by (simp add: update_primary_def Let_def)
  qed
qed

subsection \<open>Refractory gaps\<close>

lemma update_keeps_gaps:
  assumes "0 < minCatchIntervalSec st"
    and "successively (\<lambda>x y. minCatchIntervalSec st < y - x) (catches st)"
  shows "successively (\<lambda>x y. minCatchIntervalSec st < y - x) (catches (update t angle st))"
  using update_catches [OF assms(1), of t angle] assms(2)
  by (auto simp: successively_append_iff)

lemma run_keeps_gaps:
  assumes "0 < minCatchIntervalSec st"
    and "successively (\<lambda>x y. minCatchIntervalSec st < y - x) (catches st)"
  shows "successively (\<lambda>x y. minCatchIntervalSec st < y - x) (catches (run st calls))"
proof (induction calls rule: rev_induct)
  case Nil
  from assms(2) show ?case by simp
next
  case (snoc c calls)
  have "0 < minCatchIntervalSec (run st calls)" using assms(1) by simp
  from update_keeps_gaps [OF this, of "fst c" "snd c"] snoc.IH
  show ?case by (simp add: run_snoc)
qed

lemma successively_nth:
  "successively P xs \<Longrightarrow> Suc i < length xs \<Longrightarrow> P (xs ! i) (xs ! Suc i)"
proof (induction P xs arbitrary: i rule: successively.induct)
  case (3 P x y xs)
  then show ?case by (cases i) simp_all
qed simp_all

lemma gaps_strictly_increasing:
  assumes "0 < (m::real)" and "successively (\<lambda>x y. m < y - x) cs"
  shows "sorted_wrt (<) cs"
proof -
  have "successively (<) cs"
    using assms(2) by (rule successively_mono) (use assms(1) in simp)
  then show ?thesis by (simp add: successively_conv_sorted_wrt)
qed

text \<open>
  C1. For every configuration with a positive \<open>minCatchIntervalSec\<close> and every sequence of
  \<open>update\<close> calls with non-decreasing timestamps, the catch list after the calls is
  strictly increasing, and each catch lies more than \<open>minCatchIntervalSec\<close> (hence at
  least that much) after the catch before it. The sequence is arbitrary, so this holds
  after every call of a session, and \<open>update\<close> covers both rules.
\<close>

theorem catches_increasing_and_separated:
  assumes "0 < minCatchIntervalSec (StrokeState c)"
    and "sorted (map fst calls)"
  shows "sorted_wrt (<) (catches (run (StrokeState c) calls)) \<and>
    (\<forall>i. Suc i < length (catches (run (StrokeState c) calls)) \<longrightarrow>
       minCatchIntervalSec (StrokeState c)
         < catches (run (StrokeState c) calls) ! Suc i - catches (run (StrokeState c) calls) ! i)"
proof -
  let ?m = "minCatchIntervalSec (StrokeState c)"
  have "successively (\<lambda>x y. ?m < y - x) (catches (StrokeState c))"
    by (simp add: StrokeState_def)
  then have g: "successively (\<lambda>x y. ?m < y - x) (catches (run (StrokeState c) calls))"
    by (rule run_keeps_gaps [OF assms(1)])
  from gaps_strictly_increasing [OF assms(1) g] successively_nth [OF g]
  show ?thesis by blast
qed

theorem catches_increasing_and_separated_witness:
  "0 < minCatchIntervalSec (StrokeState no_options)
   \<and> sorted (map fst descent)
   \<and> catches (run (StrokeState no_options) descent) = [8, 9, 10]
   \<and> sorted_wrt (<) (catches (run (StrokeState no_options) descent))
   \<and> minCatchIntervalSec (StrokeState no_options)
       < catches (run (StrokeState no_options) descent) ! Suc 0
         - catches (run (StrokeState no_options) descent) ! 0"
proof -
  have m: "0 < minCatchIntervalSec (StrokeState no_options)" by code_simp
  have s: "sorted (map fst descent)" by code_simp
  have c: "catches (run (StrokeState no_options) descent) = [8, 9, 10]" by code_simp
  from catches_increasing_and_separated [OF m s]
  have inc: "sorted_wrt (<) (catches (run (StrokeState no_options) descent))"
    and gap: "\<forall>i. Suc i < length (catches (run (StrokeState no_options) descent)) \<longrightarrow>
       minCatchIntervalSec (StrokeState no_options)
         < catches (run (StrokeState no_options) descent) ! Suc i
           - catches (run (StrokeState no_options) descent) ! i"
    by blast+
  from gap c have "minCatchIntervalSec (StrokeState no_options)
       < catches (run (StrokeState no_options) descent) ! Suc 0
         - catches (run (StrokeState no_options) descent) ! 0"
    by (metis One_nat_def length_Cons less_Suc_eq_0_disj list.size(3) lessI)
  with m s c inc show ?thesis by blast
qed

section \<open>The finish list\<close>

lemma foldl_max_sample_in: "foldl max_sample x xs \<in> set (x # xs)"
  by (induction xs arbitrary: x) (auto simp: max_sample_def)

lemma foldl_max_sample_ge_init: "snd x \<le> snd (foldl max_sample x xs)"
proof (induction xs arbitrary: x)
  case (Cons y ys)
  have "snd x \<le> snd (max_sample x y)" by (simp add: max_sample_def)
  also have "\<dots> \<le> snd (foldl max_sample (max_sample x y) ys)" by (rule Cons.IH)
  finally show ?case by simp
qed simp

lemma foldl_max_sample_ge: "q \<in> set (x # xs) \<Longrightarrow> snd q \<le> snd (foldl max_sample x xs)"
proof (induction xs arbitrary: x)
  case Nil
  then show ?case by simp
next
  case (Cons y ys)
  have step: "snd x \<le> snd (max_sample x y)" "snd y \<le> snd (max_sample x y)"
    by (simp_all add: max_sample_def)
  from Cons.prems consider "q = x" | "q = y" | "q \<in> set ys" by auto
  then show ?case
  proof cases
    case 1
    with step(1) foldl_max_sample_ge_init [of "max_sample x y" ys] show ?thesis by simp
  next
    case 2
    with step(2) foldl_max_sample_ge_init [of "max_sample x y" ys] show ?thesis by simp
  next
    case 3
    with Cons.IH [of "max_sample x y"] show ?thesis by simp
  qed
qed

lemma reduce_max_in: "w \<noteq> [] \<Longrightarrow> reduce_max w \<in> set w"
  using foldl_max_sample_in [of "hd w" "tl w"] by (cases w) (simp_all add: reduce_max_def)

lemma reduce_max_ge: "q \<in> set w \<Longrightarrow> snd q \<le> snd (reduce_max w)"
  using foldl_max_sample_ge [of q "hd w" "tl w"] by (cases w) (simp_all add: reduce_max_def)

lemma reduce_max_snoc: "w \<noteq> [] \<Longrightarrow> reduce_max (w @ [p]) = max_sample (reduce_max w) p"
  by (cases w) (simp_all add: reduce_max_def)

lemma catch_window_last:
  "catches st \<noteq> [] \<Longrightarrow> catch_window st = filter (\<lambda>p. last (catches st) \<le> fst p) (angles st)"
  by (simp add: catch_window_def last_conv_nth)

lemma catch_window_finishes [simp]:
  "catch_window (st\<lparr>finishes := fs\<rparr>) = catch_window st"
  by (simp add: catch_window_def)

lemma catch_window_subset: "set (catch_window st) \<subseteq> set (angles st)"
  by (auto simp: catch_window_def)

lemma bound_mono: "\<forall>x\<in>A. f x \<le> (T::real) \<Longrightarrow> T \<le> T' \<Longrightarrow> \<forall>x\<in>A. f x \<le> T'"
  by (meson order_trans)

lemma finish_pre_mono:
  assumes "finish_pre T st" and "T \<le> T'"
  shows "finish_pre T' st"
proof -
  from assms(1) have a: "\<forall>p\<in>set (angles st). fst p \<le> T"
    and f: "\<forall>f\<in>set (finishes st). f \<le> T"
    and c: "\<forall>c\<in>set (catches st). c \<le> T"
    and rest: "successively (<) (finishes st)"
      "catches st \<noteq> [] \<longrightarrow>
        catch_window st \<noteq> [] \<and>
        (finishes st \<noteq> [] \<longrightarrow> last (finishes st) \<le> fst (reduce_max (catch_window st)))"
    unfolding finish_pre_def by blast+
  from bound_mono [OF a assms(2)] bound_mono [OF f assms(2)] bound_mono [OF c assms(2)] rest
  show ?thesis unfolding finish_pre_def by blast
qed

lemma finish_inv_mono: "finish_inv T st \<Longrightarrow> T \<le> T' \<Longrightarrow> finish_inv T' st"
  unfolding finish_inv_def using finish_pre_mono by blast

lemma update_finish_cases:
  "update_finish st =
     (if catches st \<noteq> [] \<and> 3 \<le> length (catch_window st)
         \<and> (finishes st = [] \<or> last (finishes st) < fst (reduce_max (catch_window st)))
      then st\<lparr>finishes := finishes st @ [fst (reduce_max (catch_window st))]\<rparr>
      else st)"
proof (cases "catches st = []")
  case True
  then show ?thesis by (simp add: update_finish_def)
next
  case False
  then have "1 \<le> length (catches st)" by (simp add: Suc_le_eq)
  then show ?thesis
    using False by (cases "finishes st = []") (auto simp: update_finish_def Let_def nth_length_minus_1)
qed

lemma update_finish_inv:
  assumes "finish_pre T st"
  shows "finish_inv T (update_finish st)"
proof (cases "catches st \<noteq> [] \<and> 3 \<le> length (catch_window st)")
  case False
  then have "update_finish st = st"
    by (auto simp: update_finish_cases)
  with assms False show ?thesis unfolding finish_inv_def by auto
next
  case True
  let ?w = "catch_window st"
  let ?m = "reduce_max ?w"
  from True have wne: "?w \<noteq> []" by auto
  have m_in: "?m \<in> set (angles st)"
    using reduce_max_in [OF wne] catch_window_subset by blast
  with assms have m_le: "fst ?m \<le> T" by (simp add: finish_pre_def)
  from assms True have low: "finishes st \<noteq> [] \<Longrightarrow> last (finishes st) \<le> fst ?m"
    by (simp add: finish_pre_def)
  show ?thesis
  proof (cases "finishes st = [] \<or> last (finishes st) < fst ?m")
    case push: True
    let ?st' = "st\<lparr>finishes := finishes st @ [fst ?m]\<rparr>"
    from push True have eq: "update_finish st = ?st'"
      by (simp add: update_finish_cases)
    have 1: "\<forall>p\<in>set (angles ?st'). fst p \<le> T" using assms by (simp add: finish_pre_def)
    have 2: "\<forall>f\<in>set (finishes ?st'). f \<le> T" using assms m_le by (simp add: finish_pre_def)
    have 3: "\<forall>c\<in>set (catches ?st'). c \<le> T" using assms by (simp add: finish_pre_def)
    have "successively (<) (finishes st)" using assms by (simp add: finish_pre_def)
    with push have 4: "successively (<) (finishes ?st')"
      by (auto simp: successively_append_iff)
    have 5: "catch_window ?st' \<noteq> []" using wne by simp
    have 6: "last (finishes ?st') = fst (reduce_max (catch_window ?st'))" by simp
    have 7: "finishes ?st' \<noteq> []" by simp
    from 1 2 3 4 5 6 7 have "finish_inv T ?st'"
      unfolding finish_inv_def finish_pre_def by (intro conjI impI) simp_all
    with eq show ?thesis by simp
  next
    case keep: False
    then have eq: "update_finish st = st"
      by (simp add: update_finish_cases)
    from keep low have "finishes st \<noteq> []" "last (finishes st) = fst ?m" by auto
    with assms show ?thesis unfolding eq finish_inv_def by simp
  qed
qed

lemma rules_catches:
  "catches (update_fallback t (update_primary t s)) = catches s \<or>
   (catches (update_fallback t (update_primary t s)) \<noteq> [] \<and>
    last (catches (update_fallback t (update_primary t s))) = t \<and>
    set (catches (update_fallback t (update_primary t s))) \<subseteq> insert t (set (catches s)))"
  using update_primary_catches [of t s] update_fallback_catches [of t "update_primary t s"]
  by auto

lemma rules_establish_pre:
  assumes inv: "finish_inv T st" and le: "T \<le> t"
  shows "finish_pre t (update_fallback t (update_primary t (update_streak (update_sample t a st))))"
proof -
  let ?s2 = "update_streak (update_sample t a st)"
  let ?s5 = "update_fallback t (update_primary t ?s2)"
  from inv have pre: "finish_pre T st" by (simp add: finish_inv_def)
  have ang: "angles ?s5 = angles st @ [(t, a)]" and fin: "finishes ?s5 = finishes st"
    by simp_all
  have c2: "catches ?s2 = catches st" by simp
  from pre le have b_ang: "\<forall>p\<in>set (angles ?s5). fst p \<le> t"
    and b_fin: "\<forall>f\<in>set (finishes ?s5). f \<le> t"
    by (auto simp: finish_pre_def)
  from pre le have "\<forall>c\<in>insert t (set (catches st)). c \<le> t"
    by (auto simp: finish_pre_def)
  moreover from rules_catches [of t ?s2] c2
  have "set (catches ?s5) \<subseteq> insert t (set (catches st))"
    by auto
  ultimately have b_cat: "\<forall>c\<in>set (catches ?s5). c \<le> t"
    by blast
  from pre have suc: "successively (<) (finishes ?s5)"
    by (simp add: finish_pre_def)
  have win: "catch_window ?s5 \<noteq> [] \<and>
      (finishes ?s5 \<noteq> [] \<longrightarrow> last (finishes ?s5) \<le> fst (reduce_max (catch_window ?s5)))"
    if ne: "catches ?s5 \<noteq> []"
  proof -
    from b_cat ne have lc: "last (catches ?s5) \<le> t" by simp
    have w5: "catch_window ?s5 =
        filter (\<lambda>p. last (catches ?s5) \<le> fst p) (angles st) @ [(t, a)]"
      using lc by (simp add: catch_window_last [OF ne])
    then have wne: "catch_window ?s5 \<noteq> []" by simp
    have "last (finishes st) \<le> fst (reduce_max (catch_window ?s5))" if fne: "finishes st \<noteq> []"
    proof (cases "catches ?s5 = catches st")
      case True
      with ne have cne: "catches st \<noteq> []" by simp
      have w: "catch_window ?s5 = catch_window st @ [(t, a)]"
        using w5 True by (simp add: catch_window_last [OF cne])
      from pre cne fne have old: "catch_window st \<noteq> []"
        "last (finishes st) \<le> fst (reduce_max (catch_window st))"
        by (simp_all add: finish_pre_def)
      from pre have "\<forall>f\<in>set (finishes st). f \<le> T" by (simp add: finish_pre_def)
      with last_in_set [OF fne] have "last (finishes st) \<le> T" by blast
      with le have "last (finishes st) \<le> t" by simp
      with old show ?thesis
        by (simp add: w reduce_max_snoc max_sample_def)
    next
      case False
      with rules_catches [of t ?s2] c2 have "last (catches ?s5) = t" by auto
      with reduce_max_in [OF wne] have "t \<le> fst (reduce_max (catch_window ?s5))"
        by (auto simp: catch_window_last [OF ne])
      moreover from pre have "\<forall>f\<in>set (finishes st). f \<le> T" by (simp add: finish_pre_def)
      with last_in_set [OF fne] have "last (finishes st) \<le> T" by blast
      with le have "last (finishes st) \<le> t" by simp
      ultimately show ?thesis by simp
    qed
    with wne show ?thesis by (simp add: fin)
  qed
  from b_ang b_fin b_cat suc win show ?thesis
    unfolding finish_pre_def by (intro conjI impI) simp_all
qed

lemma update_finish_inv_step:
  assumes "finish_inv T st" and "T \<le> t"
  shows "finish_inv t (update t angle st)"
proof (cases angle)
  case (Fin a)
  from update_finish_inv [OF rules_establish_pre [OF assms, of a]]
  show ?thesis by (simp add: Fin update_def update_finite_def)
qed (use finish_inv_mono [OF assms] in \<open>simp_all add: update_def\<close>)

lemma StrokeState_finish_inv: "finish_inv T (StrokeState c)"
  by (simp add: finish_inv_def finish_pre_def StrokeState_def)

lemma run_finish_inv:
  assumes "sorted (map fst calls)" and "\<forall>x\<in>set calls. fst x \<le> T"
  shows "finish_inv T (run (StrokeState c) calls)"
  using assms
proof (induction calls arbitrary: T rule: rev_induct)
  case Nil
  show ?case by (simp add: StrokeState_finish_inv)
next
  case (snoc x calls)
  from snoc.prems(1) have s: "sorted (map fst calls)" and b: "\<forall>y\<in>set calls. fst y \<le> fst x"
    by (auto simp: sorted_append)
  from snoc.IH [OF s b] have "finish_inv (fst x) (run (StrokeState c) calls)" .
  from update_finish_inv_step [OF this order_refl, of "snd x"]
  have "finish_inv (fst x) (run (StrokeState c) (calls @ [x]))" by (simp add: run_snoc)
  moreover from snoc.prems(2) have "fst x \<le> T" by simp
  ultimately show ?case by (rule finish_inv_mono)
qed

lemma update_finish_appends:
  "finishes (update_finish st) = finishes st \<or>
   (\<exists>f. finishes (update_finish st) = finishes st @ [f] \<and>
        (finishes st = [] \<or> last (finishes st) < f))"
  by (simp add: update_finish_cases)

lemma update_finishes_append:
  "finishes (update t angle st) = finishes st \<or>
   (\<exists>f. finishes (update t angle st) = finishes st @ [f] \<and>
        (finishes st = [] \<or> last (finishes st) < f))"
proof (cases angle)
  case (Fin a)
  from update_finish_appends [of "update_fallback t (update_primary t (update_streak (update_sample t a st)))"]
  show ?thesis by (simp add: Fin update_def update_finite_def)
qed (simp_all add: update_def)


text \<open>
  C3, as amended. In a session with non-decreasing timestamps, after every call of
  \<open>update\<close>: the finish list is strictly increasing; the call has left it as it was or
  appended one timestamp, strictly greater than the finish before it; and if at least
  one catch exists and at least three raw samples lie at or after the most recent catch,
  the last finish is the timestamp of a sample of maximum angle among those samples.
\<close>

theorem finish_is_window_maximum:
  assumes "sorted (map fst (calls @ [call]))"
  shows "sorted_wrt (<) (finishes (run (StrokeState c) (calls @ [call])))
    \<and> (finishes (run (StrokeState c) (calls @ [call])) = finishes (run (StrokeState c) calls)
        \<or> (\<exists>f. finishes (run (StrokeState c) (calls @ [call]))
                  = finishes (run (StrokeState c) calls) @ [f]
              \<and> (finishes (run (StrokeState c) calls) = []
                  \<or> last (finishes (run (StrokeState c) calls)) < f)))
    \<and> (catches (run (StrokeState c) (calls @ [call])) \<noteq> []
        \<and> 3 \<le> length (catch_window (run (StrokeState c) (calls @ [call])))
       \<longrightarrow> finishes (run (StrokeState c) (calls @ [call])) \<noteq> []
           \<and> (\<exists>p\<in>set (catch_window (run (StrokeState c) (calls @ [call]))).
                 last (finishes (run (StrokeState c) (calls @ [call]))) = fst p
                 \<and> (\<forall>q\<in>set (catch_window (run (StrokeState c) (calls @ [call]))).
                       snd q \<le> snd p)))"
proof -
  let ?st = "run (StrokeState c) calls"
  let ?st' = "run (StrokeState c) (calls @ [call])"
  from assms have "\<forall>x\<in>set (calls @ [call]). fst x \<le> fst call"
    by (auto simp: sorted_append)
  from run_finish_inv [OF assms this] have inv: "finish_inv (fst call) ?st'" .
  then have "successively (<) (finishes ?st')"
    by (simp add: finish_inv_def finish_pre_def)
  then have inc: "sorted_wrt (<) (finishes ?st')"
    by (simp add: successively_conv_sorted_wrt)
  from update_finishes_append [of "fst call" "snd call" ?st]
  have app: "finishes ?st' = finishes ?st
     \<or> (\<exists>f. finishes ?st' = finishes ?st @ [f] \<and> (finishes ?st = [] \<or> last (finishes ?st) < f))"
    by (simp add: run_snoc)
  have win: "finishes ?st' \<noteq> []
           \<and> (\<exists>p\<in>set (catch_window ?st').
                 last (finishes ?st') = fst p \<and> (\<forall>q\<in>set (catch_window ?st'). snd q \<le> snd p))"
    if h: "catches ?st' \<noteq> [] \<and> 3 \<le> length (catch_window ?st')"
  proof -
    from h have wne: "catch_window ?st' \<noteq> []" by auto
    from inv h have ne: "finishes ?st' \<noteq> []"
      and eq: "last (finishes ?st') = fst (reduce_max (catch_window ?st'))"
      by (simp_all add: finish_inv_def)
    from reduce_max_in [OF wne] reduce_max_ge [of _ "catch_window ?st'"] eq ne
    show ?thesis by blast
  qed
  from inc app win show ?thesis by blast
qed

theorem finish_is_window_maximum_witness:
  "sorted (map fst (descent @ drive_frames))
   \<and> catches (run (StrokeState no_options) (descent @ drive_frames)) = [8, 9, 10]
   \<and> catch_window (run (StrokeState no_options) (descent @ drive_frames))
       = [(10, 63), (11, 100), (12, 120), (13, 110)]
   \<and> finishes (run (StrokeState no_options) (descent @ drive_frames)) = [12]
   \<and> sorted_wrt (<) (finishes (run (StrokeState no_options) (descent @ drive_frames)))"
proof -
  have split: "descent @ drive_frames = (descent @ take 2 drive_frames) @ [(13, Fin 110)]"
    by (simp add: drive_frames_def)
  have s: "sorted (map fst (descent @ drive_frames))" by code_simp
  have c: "catches (run (StrokeState no_options) (descent @ drive_frames)) = [8, 9, 10]"
    by code_simp
  have w: "catch_window (run (StrokeState no_options) (descent @ drive_frames))
       = [(10, 63), (11, 100), (12, 120), (13, 110)]"
    by code_simp
  have f: "finishes (run (StrokeState no_options) (descent @ drive_frames)) = [12]"
    by code_simp
  from finish_is_window_maximum [of "descent @ take 2 drive_frames" "(13, Fin 110)" no_options] s
  have "sorted_wrt (<) (finishes (run (StrokeState no_options) (descent @ drive_frames)))"
    unfolding split by blast
  with s c w f show ?thesis by blast
qed

text \<open>
  C3, as stated, fails while fewer than three samples lie at or after the most recent
  catch. After the ninth frame of the descent the first catch exists and no finish is
  recorded. After the catch at \<open>t = 14\<close> the only sample at or after it is that frame, and
  the finish on record is still \<open>12\<close>, the peak of the stroke before.
\<close>

theorem no_finish_right_after_catch:
  "catches (run (StrokeState no_options) (take 9 descent)) = [8]
   \<and> finishes (run (StrokeState no_options) (take 9 descent)) = []
   \<and> catches (run (StrokeState no_options) (descent @ drive_frames @ [(14, Fin 60)])) = [8, 9, 10, 14]
   \<and> catch_window (run (StrokeState no_options) (descent @ drive_frames @ [(14, Fin 60)])) = [(14, 60)]
   \<and> finishes (run (StrokeState no_options) (descent @ drive_frames @ [(14, Fin 60)])) = [12]"
  by code_simp

section \<open>The stroke rate\<close>

lemma fold_periods_body:
  "fold (periods_body cs) is acc
     = acc @ filter (\<lambda>d. 1 / 10 < d) (map (\<lambda>i. cs ! Suc i - cs ! i) is)"
  by (induction "is" arbitrary: acc) (simp_all add: periods_body_def Let_def)

lemma summary_periods_filter:
  "summary_periods cs = filter (\<lambda>d. 1 / 10 < d) (inter_catch_intervals cs)"
  by (simp add: summary_periods_def inter_catch_intervals_def fold_periods_body)

lemma foldl_plus_sum_list: "foldl (+) a xs = a + sum_list (xs :: real list)"
  by (induction xs arbitrary: a) simp_all

lemma inter_catch_intervals_short: "length cs < 2 \<Longrightarrow> inter_catch_intervals cs = []"
  by (simp add: inter_catch_intervals_def)

text \<open>
  C5. \<open>summary\<close> reports a stroke count equal to the length of the catch list; a stroke
  rate of 0 when there are fewer than two catches; and otherwise 60 divided by the mean
  of the consecutive inter-catch intervals that are longer than 0.1 s. When no interval
  is longer than 0.1 s there is no mean, and the rate is 0 as well.
\<close>

theorem summary_stroke_rate:
  "strokes (summary st) = length (catches st)
   \<and> (length (catches st) < 2 \<longrightarrow> spm (summary st) = 0)
   \<and> (filter (\<lambda>d. 1 / 10 < d) (inter_catch_intervals (catches st)) \<noteq> [] \<longrightarrow>
        spm (summary st)
          = 60 / mean (filter (\<lambda>d. 1 / 10 < d) (inter_catch_intervals (catches st))))
   \<and> (filter (\<lambda>d. 1 / 10 < d) (inter_catch_intervals (catches st)) = [] \<longrightarrow>
        spm (summary st) = 0)"
proof (cases "2 \<le> length (catches st)")
  case True
  then show ?thesis
    by (simp add: summary_def Let_def summary_periods_filter foldl_plus_sum_list mean_def)
next
  case False
  then have "inter_catch_intervals (catches st) = []"
    by (simp add: inter_catch_intervals_short)
  with False show ?thesis
    by (simp add: summary_def Let_def)
qed

theorem summary_stroke_rate_witness:
  "catches (run (StrokeState no_options) stroke_cycle) = [8, 12]
   \<and> filter (\<lambda>d. 1 / 10 < d) (inter_catch_intervals (catches (run (StrokeState no_options) stroke_cycle))) = [4]
   \<and> strokes (summary (run (StrokeState no_options) stroke_cycle)) = 2
   \<and> spm (summary (run (StrokeState no_options) stroke_cycle)) = 15
   \<and> length (catches (run (StrokeState no_options) (take 9 descent))) < 2
   \<and> spm (summary (run (StrokeState no_options) (take 9 descent))) = 0"
proof -
  let ?st = "run (StrokeState no_options) stroke_cycle"
  let ?st1 = "run (StrokeState no_options) (take 9 descent)"
  have c: "catches ?st = [8, 12]" by code_simp
  have f: "filter (\<lambda>d. 1 / 10 < d) (inter_catch_intervals (catches ?st)) = [4]"
    unfolding c by code_simp
  have l: "length (catches ?st1) < 2" by code_simp
  from summary_stroke_rate [of ?st] c f
  have "strokes (summary ?st) = 2" "spm (summary ?st) = 15"
    by (simp_all add: mean_def)
  moreover from summary_stroke_rate [of ?st1] l have "spm (summary ?st1) = 0"
    by blast
  ultimately show ?thesis using c f l by blast
qed

section \<open>The drive/recovery ratio\<close>

lemma drr_scan_None:
  assumes "\<forall>i. int i \<le> k \<longrightarrow> \<not> stroke_triple cs fs i"
    and "k < int (length fs)" and "k + 1 < int (length cs)"
  shows "drr_scan cs fs k = None"
  using assms
proof (induction cs fs k rule: drr_scan.induct)
  case (1 cs fs i)
  show ?case
  proof (cases "0 \<le> i")
    case False
    then show ?thesis by (simp add: drr_scan.simps [of cs fs i])
  next
    case True
    from "1.prems"(1) True have no: "\<not> stroke_triple cs fs (nat i)" by simp
    have rec: "drr_scan cs fs (i - 1) = None"
    proof (cases "cs ! nat i < fs ! nat i \<and> fs ! nat i < cs ! nat (i + 1)")
      case a: True
      with no True "1.prems"(2,3) have "\<not> (fs ! nat i - cs ! nat i > 0 \<and> cs ! nat (i + 1) - fs ! nat i > 0)"
        by (simp add: stroke_triple_def nat_add_distrib)
      with "1.IH"(1) [OF True refl refl refl a refl refl] "1.prems" show ?thesis
        by simp
    next
      case b: False
      with "1.IH"(2) [OF True refl refl refl b] "1.prems" show ?thesis
        by simp
    qed
    from no True "1.prems"(2,3) have "\<not> (cs ! nat i < fs ! nat i \<and> fs ! nat i < cs ! nat (i + 1)
        \<and> fs ! nat i - cs ! nat i > 0 \<and> cs ! nat (i + 1) - fs ! nat i > 0)"
      by (simp add: stroke_triple_def nat_add_distrib)
    with rec True show ?thesis
      by (auto simp: drr_scan.simps [of cs fs i] Let_def)
  qed
qed


lemma drr_scan_Some:
  assumes "stroke_triple cs fs i" and "int i \<le> k"
    and "\<forall>j. i < j \<and> int j \<le> k \<longrightarrow> \<not> stroke_triple cs fs j"
    and "k < int (length fs)" and "k + 1 < int (length cs)"
  shows "drr_scan cs fs k = Some ((fs ! i - cs ! i) / (cs ! Suc i - fs ! i))"
  using assms
proof (induction cs fs k rule: drr_scan.induct)
  case (1 cs fs k)
  from "1.prems"(2) have k0: "0 \<le> k" by simp
  show ?case
  proof (cases "nat k = i")
    case True
    with "1.prems"(1) k0 have "cs ! nat k < fs ! nat k" "fs ! nat k < cs ! nat (k + 1)"
      "0 < fs ! nat k - cs ! nat k" "0 < cs ! nat (k + 1) - fs ! nat k"
      by (simp_all add: stroke_triple_def nat_add_distrib)
    with k0 True show ?thesis
      by (simp add: drr_scan.simps [of cs fs k] Let_def nat_add_distrib)
  next
    case False
    with "1.prems"(2) k0 have lt: "i < nat k" and le: "int i \<le> k - 1" by linarith+
    from "1.prems"(3) lt k0 have no: "\<not> stroke_triple cs fs (nat k)" by simp
    from "1.prems"(3) have later: "\<forall>j. i < j \<and> int j \<le> k - 1 \<longrightarrow> \<not> stroke_triple cs fs j"
      by simp
    from "1.prems"(4,5) have bounds: "k - 1 < int (length fs)" "k - 1 + 1 < int (length cs)"
      by simp_all
    have rec: "drr_scan cs fs (k - 1) = Some ((fs ! i - cs ! i) / (cs ! Suc i - fs ! i))"
    proof (cases "cs ! nat k < fs ! nat k \<and> fs ! nat k < cs ! nat (k + 1)")
      case a: True
      with no k0 "1.prems"(4,5)
      have b: "\<not> (fs ! nat k - cs ! nat k > 0 \<and> cs ! nat (k + 1) - fs ! nat k > 0)"
        by (simp add: stroke_triple_def nat_add_distrib)
      from "1.IH"(1) [OF k0 refl refl refl a refl refl b "1.prems"(1) le later bounds]
      show ?thesis .
    next
      case b: False
      from "1.IH"(2) [OF k0 refl refl refl b "1.prems"(1) le later bounds]
      show ?thesis .
    qed
    from no k0 "1.prems"(4,5)
    have "\<not> (cs ! nat k < fs ! nat k \<and> fs ! nat k < cs ! nat (k + 1)
        \<and> fs ! nat k - cs ! nat k > 0 \<and> cs ! nat (k + 1) - fs ! nat k > 0)"
      by (simp add: stroke_triple_def nat_add_distrib)
    with rec k0 show ?thesis
      by (auto simp: drr_scan.simps [of cs fs k] Let_def)
  qed
qed

lemma summary_drr:
  "drr (summary st) =
     (if 2 \<le> length (catches st)
      then drr_scan (catches st) (finishes st)
             (min (int (length (finishes st))) (int (length (catches st)) - 1) - 1)
      else None)"
  by (simp add: summary_def Let_def)

text \<open>
  C6. When \<open>i\<close> is the greatest index of a triple
  \<open>catch[i] < finish[i] < catch[i+1]\<close> with both durations positive, \<open>summary\<close> reports
  the ratio \<open>(finish[i] - catch[i]) / (catch[i+1] - finish[i])\<close>; when there is no such
  triple it reports \<open>null\<close>.
\<close>

theorem summary_drive_recovery_ratio:
  "(stroke_triple (catches st) (finishes st) i
      \<and> (\<forall>j. i < j \<longrightarrow> \<not> stroke_triple (catches st) (finishes st) j)
     \<longrightarrow> drr (summary st)
          = Some ((finishes st ! i - catches st ! i) / (catches st ! Suc i - finishes st ! i)))
   \<and> ((\<forall>j. \<not> stroke_triple (catches st) (finishes st) j) \<longrightarrow> drr (summary st) = None)"
proof (intro conjI impI)
  let ?k = "min (int (length (finishes st))) (int (length (catches st)) - 1) - 1"
  assume h: "stroke_triple (catches st) (finishes st) i
      \<and> (\<forall>j. i < j \<longrightarrow> \<not> stroke_triple (catches st) (finishes st) j)"
  then have t: "stroke_triple (catches st) (finishes st) i" by blast
  then have two: "2 \<le> length (catches st)" and ik: "int i \<le> ?k"
    by (auto simp: stroke_triple_def)
  from h have later: "\<forall>j. i < j \<and> int j \<le> ?k \<longrightarrow> \<not> stroke_triple (catches st) (finishes st) j"
    by blast
  have "?k < int (length (finishes st))" "?k + 1 < int (length (catches st))"
    by simp_all
  from drr_scan_Some [OF t ik later this] two
  show "drr (summary st)
          = Some ((finishes st ! i - catches st ! i) / (catches st ! Suc i - finishes st ! i))"
    by (simp add: summary_drr)
next
  let ?k = "min (int (length (finishes st))) (int (length (catches st)) - 1) - 1"
  assume h: "\<forall>j. \<not> stroke_triple (catches st) (finishes st) j"
  then have no: "\<forall>j. int j \<le> ?k \<longrightarrow> \<not> stroke_triple (catches st) (finishes st) j"
    by blast
  have "?k < int (length (finishes st))" "?k + 1 < int (length (catches st))"
    by simp_all
  from drr_scan_None [OF no this] show "drr (summary st) = None"
    by (simp add: summary_drr)
qed

theorem summary_drive_recovery_ratio_witness:
  "catches (run (StrokeState no_options) stroke_cycle) = [8, 12]
   \<and> finishes (run (StrokeState no_options) stroke_cycle) = [10, 11]
   \<and> stroke_triple [8, 12] [10, 11] 0
   \<and> drr (summary (run (StrokeState no_options) stroke_cycle)) = Some 1
   \<and> drr (summary (run (StrokeState no_options) (take 9 descent))) = None"
proof -
  let ?st = "run (StrokeState no_options) stroke_cycle"
  let ?st1 = "run (StrokeState no_options) (take 9 descent)"
  have c: "catches ?st = [8, 12]" by code_simp
  have f: "finishes ?st = [10, 11]" by code_simp
  have t: "stroke_triple [8, 12] [10, 11] 0" by (simp add: stroke_triple_def)
  have later: "\<forall>j. 0 < j \<longrightarrow> \<not> stroke_triple [8, 12] [10, 11] j"
    by (simp add: stroke_triple_def)
  from summary_drive_recovery_ratio [of ?st 0] t later
  have r: "drr (summary ?st) = Some 1"
    unfolding c f by simp
  have c1: "catches ?st1 = [8]" by code_simp
  have "\<forall>j. \<not> stroke_triple (catches ?st1) (finishes ?st1) j"
    unfolding c1 by (simp add: stroke_triple_def)
  with summary_drive_recovery_ratio [of ?st1 0] have "drr (summary ?st1) = None"
    by blast
  with c f t r show ?thesis by blast
qed

section \<open>The catch threshold\<close>

lemma minmax_body_Fin:
  "minmax_body k (Fin lo, Fin hi) = (Fin (min lo (snd k)), Fin (max hi (snd k)))"
  by (simp add: minmax_body_def Let_def min_def max_def)

lemma fold_minmax_Fin:
  "fold minmax_body kw (Fin lo, Fin hi)
     = (Fin (Min (insert lo (snd ` set kw))), Fin (Max (insert hi (snd ` set kw))))"
proof (induction kw arbitrary: lo hi)
  case Nil
  show ?case by simp
next
  case (Cons k kw)
  have "Min (insert (min lo (snd k)) (snd ` set kw)) = Min (insert lo (insert (snd k) (snd ` set kw)))"
    by (cases "snd ` set kw = {}") (simp_all add: min.assoc)
  moreover
  have "Max (insert (max hi (snd k)) (snd ` set kw)) = Max (insert hi (insert (snd k) (snd ` set kw)))"
    by (cases "snd ` set kw = {}") (simp_all add: max.assoc)
  ultimately show ?case by (simp add: minmax_body_Fin Cons.IH)
qed

lemma fold_minmax_sentinels:
  assumes "kw \<noteq> []"
  shows "fold minmax_body kw (PosInf, NegInf)
     = (Fin (Min (snd ` set kw)), Fin (Max (snd ` set kw)))"
proof -
  from assms obtain k ks where kw: "kw = k # ks" by (cases kw) auto
  have "minmax_body k (PosInf, NegInf) = (Fin (snd k), Fin (snd k))"
    by (simp add: minmax_body_def)
  then show ?thesis by (simp add: kw fold_minmax_Fin)
qed

lemma estimateCatchThreshold_full:
  assumes "10 \<le> length kw"
  shows "estimateCatchThreshold kw manual =
     Fin (max 70 (min 130 (Min (snd ` set kw)
            + 35 / 100 * max 1 (Max (snd ` set kw) - Min (snd ` set kw)))))"
proof -
  from assms have "kw \<noteq> []" by auto
  from fold_minmax_sentinels [OF this] assms show ?thesis
    by (simp add: estimateCatchThreshold_def Let_def)
qed

lemma catchAngleMax_steps [simp]:
  "catchAngleMax (update_sample t a st) = catchAngleMax st"
  "catchAngleMax (update_streak st) = catchAngleMax st"
  "catchAngleMax (update_primary t st) = catchAngleMax st"
  "catchAngleMax (update_fallback t st) = catchAngleMax st"
  "catchAngleMax (update_finish st) = catchAngleMax st"
  by (simp_all add: update_sample_def update_streak_def update_primary_def
      update_fallback_def update_finish_def Let_def)

lemma update_catchAngleMax [simp]:
  "catchAngleMax (update t angle st) = catchAngleMax st"
  by (cases angle) (simp_all add: update_def update_finite_def)


text \<open>With non-decreasing timestamps the window holds, after a frame with a finite angle,
  the samples of the trailing \<open>kneeWindowSec\<close> seconds and no other.\<close>

lemma dropWhile_sorted_filter:
  "sorted (map f xs) \<Longrightarrow> dropWhile (\<lambda>x. f x < (c::real)) xs = filter (\<lambda>x. c \<le> f x) xs"
proof (induction xs)
  case Nil
  show ?case by simp
next
  case (Cons x xs)
  show ?case
  proof (cases "f x < c")
    case True
    with Cons show ?thesis by simp
  next
    case False
    with Cons.prems have "\<forall>y\<in>set xs. c \<le> f y" by auto
    then have "filter (\<lambda>x. c \<le> f x) xs = xs" by (simp add: filter_id_conv)
    with False show ?thesis by simp
  qed
qed

lemma updateKneeWindow_trailing:
  assumes "sorted (map fst kw)" and "\<forall>k\<in>set kw. fst k \<le> t"
  shows "updateKneeWindow t (Fin a) kw
     = filter (\<lambda>k. t - kneeWindowSec \<le> fst k) (kw @ [(t, a)])"
proof -
  from assms have "sorted (map fst (kw @ [(t, a)]))"
    by (simp add: sorted_append)
  from dropWhile_sorted_filter [OF this, of "t - kneeWindowSec"] show ?thesis
    by (simp add: updateKneeWindow_def Let_def)
qed

text \<open>The threshold in terms of the window buffer after the frame.\<close>

lemma threshold_of_buffer:
  assumes "autoCatch app"
  shows "(10 \<le> length (kneeWindow (onResults_detect app t angle)) \<longrightarrow>
      catchAngleMax (stroke (onResults_detect app t angle))
        = Fin (max 70 (min 130
            (Min (snd ` set (kneeWindow (onResults_detect app t angle)))
             + 35 / 100 * max 1 (Max (snd ` set (kneeWindow (onResults_detect app t angle)))
                                 - Min (snd ` set (kneeWindow (onResults_detect app t angle))))))))
    \<and> (length (kneeWindow (onResults_detect app t angle)) < 10 \<longrightarrow>
      catchAngleMax (stroke (onResults_detect app t angle)) = manualCatchThresh app)"
proof -
  let ?kw = "updateKneeWindow t angle (kneeWindow app)"
  have kw: "kneeWindow (onResults_detect app t angle) = ?kw"
    by (simp add: onResults_detect_def Let_def)
  from assms have thr: "catchAngleMax (stroke (onResults_detect app t angle))
      = estimateCatchThreshold ?kw (manualCatchThresh app)"
    by (simp add: onResults_detect_def Let_def)
  have "length ?kw < 10 \<Longrightarrow> estimateCatchThreshold ?kw (manualCatchThresh app) = manualCatchThresh app"
    by (simp add: estimateCatchThreshold_def)
  with estimateCatchThreshold_full [of ?kw "manualCatchThresh app"] show ?thesis
    unfolding kw thr by blast
qed

text \<open>In a session with non-decreasing timestamps the buffer holds, after a frame with a
  finite angle at time \<open>t\<close>, the samples of the session that lie in the
  \<open>kneeWindowSec\<close> seconds up to \<open>t\<close>.\<close>

lemma frames_snoc: "frames app (fs @ [f]) = onResults_detect (frames app fs) (fst f) (snd f)"
  by (simp add: frames_def)

lemma frames_Nil [simp]: "frames app [] = app"
  by (simp add: frames_def)

lemma onResults_detect_fields [simp]:
  "kneeWindow (onResults_detect app t x) = updateKneeWindow t x (kneeWindow app)"
  "autoCatch (onResults_detect app t x) = autoCatch app"
  "manualCatchThresh (onResults_detect app t x) = manualCatchThresh app"
  by (simp_all add: onResults_detect_def Let_def)

lemma frames_flags [simp]:
  "autoCatch (frames app fs) = autoCatch app"
  "manualCatchThresh (frames app fs) = manualCatchThresh app"
  by (induction fs rule: rev_induct) (simp_all add: frames_snoc)

lemma finite_samples_append:
  "finite_samples (xs @ ys) = finite_samples xs @ finite_samples ys"
  by (induction xs rule: finite_samples.induct) simp_all

lemma finite_samples_times: "k \<in> set (finite_samples fs) \<Longrightarrow> fst k \<in> fst ` set fs"
  by (induction fs rule: finite_samples.induct) auto

lemma finite_samples_all:
  assumes "\<forall>f\<in>set fs. P (fst f)"
  shows "\<forall>k\<in>set (finite_samples fs). P (fst k)"
proof
  fix k assume "k \<in> set (finite_samples fs)"
  from finite_samples_times [OF this] obtain f where "f \<in> set fs" "fst k = fst f" by auto
  with assms show "P (fst k)" by simp
qed

lemma sorted_finite_samples:
  "sorted (map fst fs) \<Longrightarrow> sorted (map fst (finite_samples fs))"
proof (induction fs rule: finite_samples.induct)
  case (2 t a fs)
  from "2.prems" have "\<forall>f\<in>set fs. t \<le> fst f" by simp
  from finite_samples_all [of fs "\<lambda>x. t \<le> x", OF this] 2 show ?case by simp
qed simp_all

lemma filter_filter_weaker:
  assumes "\<And>x. P x \<Longrightarrow> Q x"
  shows "filter P (filter Q xs) = filter P xs"
  using assms by (induction xs) auto

lemma kneeWindow_finite_frame:
  assumes srt: "sorted (map fst (fs @ [(t, Fin a)]))"
    and inv: "(finite_samples fs = [] \<and> kneeWindow app = [])
      \<or> (\<exists>T\<in>fst ` set fs. kneeWindow app
            = filter (\<lambda>k. T - kneeWindowSec \<le> fst k) (finite_samples fs))"
  shows "kneeWindow (onResults_detect app t (Fin a))
     = filter (\<lambda>k. t - kneeWindowSec \<le> fst k) (finite_samples fs @ [(t, a)])"
proof -
  let ?S = "finite_samples fs"
  let ?kw = "kneeWindow app"
  from srt have s: "sorted (map fst fs)" and le: "\<forall>f\<in>set fs. fst f \<le> t"
    by (auto simp: sorted_append)
  from sorted_finite_samples [OF s] have sS: "sorted (map fst ?S)" .
  from le have leS: "\<forall>k\<in>set ?S. fst k \<le> t"
    by (rule finite_samples_all [of fs "\<lambda>x. x \<le> t"])
  from inv have sub: "sorted (map fst ?kw)" "\<forall>k\<in>set ?kw. fst k \<le> t"
    using sS leS by (auto simp: sorted_filter)
  from inv have old: "filter (\<lambda>k. t - kneeWindowSec \<le> fst k) ?kw
      = filter (\<lambda>k. t - kneeWindowSec \<le> fst k) ?S"
  proof
    assume "finite_samples fs = [] \<and> kneeWindow app = []"
    then show ?thesis by simp
  next
    assume "\<exists>T\<in>fst ` set fs. ?kw = filter (\<lambda>k. T - kneeWindowSec \<le> fst k) ?S"
    then obtain T where T: "T \<in> fst ` set fs"
      and kw: "?kw = filter (\<lambda>k. T - kneeWindowSec \<le> fst k) ?S" by blast
    from T le have "T \<le> t" by auto
    then have "\<And>k. t - kneeWindowSec \<le> fst k \<Longrightarrow> T - kneeWindowSec \<le> fst k"
      by simp
    from filter_filter_weaker [of "\<lambda>k. t - kneeWindowSec \<le> fst k" "\<lambda>k. T - kneeWindowSec \<le> fst k", OF this]
    show ?thesis by (simp add: kw)
  qed
  have "kneeWindow (onResults_detect app t (Fin a))
      = filter (\<lambda>k. t - kneeWindowSec \<le> fst k) (?kw @ [(t, a)])"
    using updateKneeWindow_trailing [OF sub] by simp
  with old show ?thesis by simp
qed

lemma kneeWindow_frames:
  assumes "sorted (map fst fs)"
  shows "(finite_samples fs = [] \<and> kneeWindow (frames (page_load auto manual) fs) = [])
      \<or> (\<exists>T\<in>fst ` set fs. kneeWindow (frames (page_load auto manual) fs)
            = filter (\<lambda>k. T - kneeWindowSec \<le> fst k) (finite_samples fs))"
  using assms
proof (induction fs rule: rev_induct)
  case Nil
  show ?case by (simp add: page_load_def)
next
  case (snoc f fs)
  from snoc.prems have s: "sorted (map fst fs)" by (simp add: sorted_append)
  note ih = snoc.IH [OF s]
  obtain t x where f: "f = (t, x)" by (cases f)
  show ?case
  proof (cases x)
    case (Fin a)
    from snoc.prems have "sorted (map fst (fs @ [(t, Fin a)]))" by (simp add: f Fin)
    from kneeWindow_finite_frame [OF this ih]
    have "kneeWindow (frames (page_load auto manual) (fs @ [f]))
        = filter (\<lambda>k. t - kneeWindowSec \<le> fst k) (finite_samples (fs @ [f]))"
      by (simp add: frames_snoc f Fin finite_samples_append)
    then show ?thesis by (auto simp: f)
  next
    case PosInf
    with ih show ?thesis
      by (auto simp: frames_snoc f finite_samples_append updateKneeWindow_def)
  next
    case NegInf
    with ih show ?thesis
      by (auto simp: frames_snoc f finite_samples_append updateKneeWindow_def)
  next
    case NaN
    with ih show ?thesis
      by (auto simp: frames_snoc f finite_samples_append updateKneeWindow_def)
  qed
qed

lemma kneeWindow_trailing_window:
  assumes "sorted (map fst (fs @ [(t, Fin a)]))"
  shows "kneeWindow (frames (page_load auto manual) (fs @ [(t, Fin a)]))
     = trailing_window t (fs @ [(t, Fin a)])"
proof -
  from assms have "sorted (map fst fs)" by (simp add: sorted_append)
  from kneeWindow_finite_frame [OF assms kneeWindow_frames [OF this]]
  show ?thesis
    by (simp add: frames_snoc trailing_window_def finite_samples_append)
qed


text \<open>
  C2, as amended. In a session with non-decreasing timestamps and adaptive mode enabled,
  after a frame with a finite knee angle at time \<open>t\<close>: when at least 10 samples of the
  session lie within the trailing \<open>kneeWindowSec = 8\<close> seconds up to \<open>t\<close>, the threshold
  handed to the detector is \<open>windowMin + 0.35 \<times> max(1, windowMax - windowMin)\<close>, clamped
  to \<open>[70, 130]\<close>, the minimum and maximum taken over those samples; with fewer than 10
  such samples it is the operator's fixed threshold exactly.
\<close>

theorem adaptive_threshold:
  assumes "sorted (map fst (fs @ [(t, Fin a)]))"
  shows "kneeWindow (frames (page_load True manual) (fs @ [(t, Fin a)]))
      = trailing_window t (fs @ [(t, Fin a)])
    \<and> (10 \<le> length (trailing_window t (fs @ [(t, Fin a)])) \<longrightarrow>
      catchAngleMax (stroke (frames (page_load True manual) (fs @ [(t, Fin a)])))
        = Fin (max 70 (min 130
            (Min (snd ` set (trailing_window t (fs @ [(t, Fin a)])))
             + 35 / 100 * max 1 (Max (snd ` set (trailing_window t (fs @ [(t, Fin a)])))
                                 - Min (snd ` set (trailing_window t (fs @ [(t, Fin a)]))))))))
    \<and> (length (trailing_window t (fs @ [(t, Fin a)])) < 10 \<longrightarrow>
      catchAngleMax (stroke (frames (page_load True manual) (fs @ [(t, Fin a)]))) = manual)"
proof -
  let ?app = "frames (page_load True manual) fs"
  have flags: "autoCatch ?app" "manualCatchThresh ?app = manual"
    by (simp_all add: page_load_def)
  have step: "frames (page_load True manual) (fs @ [(t, Fin a)]) = onResults_detect ?app t (Fin a)"
    by (simp add: frames_snoc)
  from kneeWindow_trailing_window [OF assms, of True manual]
  have w: "kneeWindow (onResults_detect ?app t (Fin a)) = trailing_window t (fs @ [(t, Fin a)])"
    by (simp add: step)
  from threshold_of_buffer [OF flags(1), of t "Fin a"] show ?thesis
    unfolding step w flags(2) by simp
qed

theorem adaptive_threshold_witness:
  "sorted (map fst (stale_frames @ late_frames))
   \<and> length (finite_samples (stale_frames @ late_frames)) = 12
   \<and> length (trailing_window (209 / 10) (stale_frames @ late_frames)) = 10
   \<and> Min (snd ` set (trailing_window (209 / 10) (stale_frames @ late_frames))) = 100
   \<and> Max (snd ` set (trailing_window (209 / 10) (stale_frames @ late_frames))) = 118
   \<and> catchAngleMax (stroke (frames (page_load True (Fin 110)) (stale_frames @ late_frames)))
       = Fin (1063 / 10)
   \<and> length (finite_samples (stale_frames @ take 9 late_frames)) = 11
   \<and> length (trailing_window (208 / 10) (stale_frames @ take 9 late_frames)) = 9
   \<and> catchAngleMax (stroke (frames (page_load True (Fin 110)) (stale_frames @ take 9 late_frames)))
       = Fin 110"
proof -
  let ?all = "stale_frames @ late_frames"
  let ?nine = "stale_frames @ take 9 late_frames"
  have s10: "?all = (stale_frames @ take 9 late_frames) @ [(209 / 10, Fin 118)]"
    by (simp add: late_frames_def)
  have s9: "?nine = (stale_frames @ take 8 late_frames) @ [(208 / 10, Fin 116)]"
    by (simp add: late_frames_def)
  have srt: "sorted (map fst ?all)" by code_simp
  have srt9: "sorted (map fst ?nine)" by code_simp
  have n12: "length (finite_samples ?all) = 12" by code_simp
  have n11: "length (finite_samples ?nine) = 11" by code_simp
  have l10: "length (trailing_window (209 / 10) ?all) = 10" by code_simp
  have l9: "length (trailing_window (208 / 10) ?nine) = 9" by code_simp
  have lo: "Min (snd ` set (trailing_window (209 / 10) ?all)) = 100" by code_simp
  have hi: "Max (snd ` set (trailing_window (209 / 10) ?all)) = 118" by code_simp
  from adaptive_threshold [of "stale_frames @ take 9 late_frames" "209 / 10" 118 "Fin 110"]
    srt l10
  have "catchAngleMax (stroke (frames (page_load True (Fin 110)) ?all)) = Fin (1063 / 10)"
    unfolding s10 [symmetric] lo hi by simp
  moreover
  from adaptive_threshold [of "stale_frames @ take 8 late_frames" "208 / 10" 116 "Fin 110"]
    srt9 l9
  have "catchAngleMax (stroke (frames (page_load True (Fin 110)) ?nine)) = Fin 110"
    unfolding s9 [symmetric] by simp
  ultimately show ?thesis using srt n12 n11 l10 l9 lo hi by blast
qed

text \<open>
  C2, as stated, fails when the angles of the window span less than one degree: for ten
  frames at 100 degrees the formula of the claim gives 100, and the detector gets 100.35.
\<close>

theorem flat_window_threshold:
  "autoCatch (frames (page_load True (Fin 110)) (take 9 flat_frames))
   \<and> length (kneeWindow (frames (page_load True (Fin 110)) flat_frames)) = 10
   \<and> catchAngleMax (stroke (frames (page_load True (Fin 110)) flat_frames)) = Fin (2007 / 20)
   \<and> claimed_threshold (kneeWindow (frames (page_load True (Fin 110)) flat_frames)) = 100"
  by code_simp

section \<open>Dropped samples\<close>

text \<open>
  C7. For every detector state, every timestamp and every non-finite angle, \<open>update\<close>
  returns the state it was given: the angle history, the derivative history, the
  positive-streak counter, the catch list and the finish list are the same before and
  after the call, and so is every other field.
\<close>

theorem update_nonfinite_unchanged:
  "\<not> isFinite angle \<Longrightarrow> update t angle st = st"
  by (simp add: update_def)

theorem update_nonfinite_unchanged_witness:
  "\<not> isFinite NaN \<and> update 3 NaN (StrokeState no_options) = StrokeState no_options"
  using update_nonfinite_unchanged [of NaN 3 "StrokeState no_options"] by simp


end
